theory Spec2Isabelle
  imports Complex_Main "HOL-Library.Word" "HOL-Library.Multiset"
begin

chapter \<open>Summary operators and the sharded data loader\<close>

text \<open>
  A shallow embedding of
  \<^item> \<^verbatim>\<open>onnxruntime/contrib_ops/cpu/summary_op.cc\<close>: the default bucket table, the class
    \<^verbatim>\<open>Histogram\<close> (\<^verbatim>\<open>Add\<close>, \<^verbatim>\<open>SerializeToProto\<close>) and \<^verbatim>\<open>SummaryMergeOp::Compute\<close>;
  \<^item> \<^verbatim>\<open>onnxruntime/test/training/runner/data_loader.cc\<close>: the constructor of
    \<^verbatim>\<open>DataLoader\<close>, \<^verbatim>\<open>InitialPreLoadAsync\<close>, \<^verbatim>\<open>MoveToNextDataSet\<close> and the task that
    \<^verbatim>\<open>LoadAndRemoveInternalAsync\<close> schedules.
\<close>

section \<open>Doubles\<close>

text \<open>
  A finite \<^verbatim>\<open>double\<close> is modelled by the real number it denotes: comparisons of finite
  doubles are comparisons of reals. NaN and the infinities have no counterpart, which is
  the domain of \<^verbatim>\<open>Histogram::Add\<close> (its caller rejects both).

  Rounding is modelled where the contents of a table depend on it, in the loop that grows
  the default bucket table by \<^verbatim>\<open>v *= 1.1\<close>: there a double is the pair of its 53-bit
  mantissa and its binary exponent, and the product is the IEEE 754 one, rounded to
  nearest, ties to even. Elsewhere \<^verbatim>\<open>+\<close> and \<^verbatim>\<open>*\<close> are the exact operations. For the
  counters \<^verbatim>\<open>num_\<close> and \<^verbatim>\<open>buckets_[i]\<close>, which start at \<open>0\<close> and only ever grow by
  \<open>1.0\<close>, the exact sum is what the machine computes as long as the counter stays below
  \<open>2 ^ 53\<close>; the one caller counts its \<^verbatim>\<open>Add\<close> calls in an \<^verbatim>\<open>int\<close>. The sums
  \<^verbatim>\<open>sum_\<close> and \<^verbatim>\<open>sum_squares_\<close> are exact in the model and rounded in the code; no
  statement below is about them.
\<close>

definition dbl_max :: real where
  \<comment> \<open>\<^verbatim>\<open>std::numeric_limits<double>::max()\<close>, the largest finite double\<close>
  "dbl_max = (2 ^ 53 - 1) * 2 ^ 971"

definition dval :: "nat \<times> int \<Rightarrow> real" where
  \<comment> \<open>the value of the double with mantissa \<open>m\<close> and exponent \<open>e\<close>: \<open>m \<sqdot> 2\<^sup>e\<close>\<close>
  "dval d = real (fst d) * 2 powi snd d"

definition round_product :: "nat \<times> int \<Rightarrow> nat \<times> int \<Rightarrow> nat \<times> int" where
  \<comment> \<open>\<^verbatim>\<open>a * b\<close> on doubles with mantissas in \<open>[2\<^sup>5\<^sup>2, 2\<^sup>5\<^sup>3)\<close>: the exact product of the
      mantissas has 105 or 106 bits; it is cut to 53 bits, rounded to nearest, ties to even,
      and renormalised when the rounding carries. The exponent is unbounded (neither
      overflow nor underflow; the loop stays between \<open>10\<^sup>-\<^sup>1\<^sup>2\<close> and \<open>1.1 \<sqdot> 10\<^sup>2\<^sup>0\<close>).\<close>
  "round_product a b =
     (let p = fst a * fst b;
          s = (if p < 2 ^ 105 then 52 else 53);
          q = p div 2 ^ s;
          r = p mod 2 ^ s;
          q = (if 2 ^ (s - 1) < r \<or> (r = 2 ^ (s - 1) \<and> odd q) then q + 1 else q)
      in if q = 2 ^ 53 then (2 ^ 52, snd a + snd b + int s + 1)
         else (q, snd a + snd b + int s))"

definition double_1e_minus_12 :: "nat \<times> int" where
  \<comment> \<open>the literal \<^verbatim>\<open>1e-12\<close>: the double nearest to \<open>10\<^sup>-\<^sup>1\<^sup>2\<close>, \<^verbatim>\<open>0x1.19799812dea11p-40\<close>\<close>
  "double_1e_minus_12 = (4951760157141521, -92)"

definition double_1_1 :: "nat \<times> int" where
  \<comment> \<open>the literal \<^verbatim>\<open>1.1\<close>: the double nearest to \<open>11 / 10\<close>, \<^verbatim>\<open>0x1.199999999999ap+0\<close>\<close>
  "double_1_1 = (4953959590107546, -52)"

section \<open>\<^verbatim>\<open>std::upper_bound\<close>\<close>

text \<open>
  The search of the C++ standard library, as libstdc++ and libc++ implement it: halve the
  range \<open>[first, first + len)\<close>, go left when \<^verbatim>\<open>val < *middle\<close> and right otherwise.
  The result is an iterator; the model returns its distance from \<^verbatim>\<open>begin()\<close>.
\<close>

function upper_bound_loop :: "real list \<Rightarrow> real \<Rightarrow> nat \<Rightarrow> nat \<Rightarrow> nat" where
  "upper_bound_loop xs val first len =
     (if 0 < len then
        (let half = len div 2; middle = first + half in
         if val < xs ! middle then upper_bound_loop xs val first half
         else upper_bound_loop xs val (middle + 1) (len - half - 1))
      else first)"
  by pat_completeness auto
termination
  by (relation "measure (\<lambda>(xs, val, first, len). len)") auto

definition upper_bound :: "real list \<Rightarrow> real \<Rightarrow> nat" where
  "upper_bound xs val = upper_bound_loop xs val 0 (length xs)"

text \<open>
  The index of the first element strictly greater than \<open>val\<close>, by a scan from the left;
  the length of the list when there is none.
\<close>

fun first_greater :: "real list \<Rightarrow> real \<Rightarrow> nat" where
  "first_greater [] val = 0"
| "first_greater (e # es) val = (if val < e then 0 else Suc (first_greater es val))"

section \<open>The default bucket table\<close>

text \<open>
  \<^verbatim>\<open>InitDefaultHistogramBuckets\<close>, first loop:
  \<^verbatim>\<open>double v = 1e-12; while (v < 1e20) { buckets.push_back(v); v *= 1.1; }\<close>.
  The literal \<^verbatim>\<open>1e20\<close> is a double, \<open>10\<^sup>2\<^sup>0\<close> exactly. The loop is a partial function of
  its start value (it never ends from \<open>0\<close>).
\<close>

partial_function (option) grow_buckets :: "nat \<times> int \<Rightarrow> real list \<Rightarrow> real list option" where
  "grow_buckets v buckets =
     (if dval v < 10 ^ 20 then grow_buckets (round_product v double_1_1) (buckets @ [dval v])
      else Some buckets)"

text \<open>
  The rest of \<^verbatim>\<open>InitDefaultHistogramBuckets\<close>, from \<^verbatim>\<open>buckets\<close> as it is after
  \<^verbatim>\<open>buckets.push_back(std::numeric_limits<double>::max())\<close>: a vector of
  \<open>2 * size + 1\<close> zeros, then the three indexed copies, each index as the source writes it.
\<close>

definition copy_negated :: "real list \<Rightarrow> real list \<Rightarrow> real list" where
  \<comment> \<open>\<^verbatim>\<open>for (i = 0; i < buckets.size(); i++) bucket_limits[i] = -buckets[buckets.size() - 1 - i];\<close>\<close>
  "copy_negated buckets bucket_limits =
     foldl (\<lambda>bl i. bl[i := - (buckets ! (length buckets - 1 - i))]) bucket_limits
       [0..<length buckets]"

definition copy_positive :: "real list \<Rightarrow> real list \<Rightarrow> real list" where
  \<comment> \<open>\<^verbatim>\<open>for (i = 0; i < buckets.size(); i++) bucket_limits[buckets.size() + i] = buckets[i];\<close>\<close>
  "copy_positive buckets bucket_limits =
     foldl (\<lambda>bl i. bl[length buckets + i := buckets ! i]) bucket_limits [0..<length buckets]"

definition fill_bucket_limits :: "real list \<Rightarrow> real list" where
  "fill_bucket_limits buckets =
     (let bucket_limits = replicate (length buckets * 2 + 1) 0;
          bucket_limits = copy_negated buckets bucket_limits;
          bucket_limits = bucket_limits[length buckets := 0]
      in copy_positive buckets bucket_limits)"

text \<open>
  The vector that the first loop builds, written out: \<open>774\<close> doubles, from
  \<^verbatim>\<open>1e-12\<close> to \<open>99207756218597834752\<close>, each the rounded product of the one before
  with \<^verbatim>\<open>1.1\<close> (lemma \<open>grow_buckets_default\<close>).
\<close>

definition grown_doubles :: "(nat \<times> int) list" where
  "grown_doubles =
     [(4951760157141521, -92), (5446936172855674, -92), (5991629790141242, -92),
      (6590792769155367, -92), (7249872046070904, -92), (7974859250677995, -92),
      (8772345175745795, -92), (4824789846660188, -91), (5307268831326207, -91),
      (5837995714458828, -91), (6421795285904711, -91), (7063974814495183, -91),
      (7770372295944702, -91), (8547409525539173, -91), (4701075239046546, -90),
      (5171182762951201, -90), (5688301039246322, -90), (6257131143170955, -90),
      (6882844257488051, -90), (7571128683236857, -90), (8328241551560543, -90),
      (4580532853358299, -89), (5038586138694129, -89), (5542444752563542, -89),
      (6096689227819897, -89), (6706358150601887, -89), (7376993965662076, -89),
      (8114693362228284, -89), (8926162698451113, -89), (4909389484148113, -88),
      (5400328432562925, -88), (5940361275819218, -88), (6534397403401140, -88),
      (7187837143741255, -88), (7906620858115381, -88), (8697282943926920, -88),
      (4783505619159806, -87), (5261856181075787, -87), (5788041799183366, -87),
      (6366845979101703, -87), (7003530577011874, -87), (7703883634713062, -87),
      (8474271998184369, -87), (4660849599001403, -86), (5126934558901544, -86),
      (5639628014791699, -86), (6203590816270869, -86), (6823949897897956, -86),
      (7506344887687752, -86), (8256979376456528, -86), (4541338657051091, -85),
      (4995472522756201, -85), (5495019775031822, -85), (6044521752535005, -85),
      (6648973927788506, -85), (7313871320567357, -85), (8045258452624093, -85),
      (8849784297886503, -85), (4867381363837577, -84), (5354119500221335, -84),
      (5889531450243469, -84), (6478484595267816, -84), (7126333054794598, -84),
      (7838966360274058, -84), (8622862996301464, -84), (4742574647965806, -83),
      (5216832112762387, -83), (5738515324038626, -83), (6312366856442489, -83),
      (6943603542086738, -83), (7637963896295412, -83), (8401760285924954, -83),
      (4620968157258725, -82), (5083064972984598, -82), (5591371470283058, -82),
      (6150508617311364, -82), (6765559479042501, -82), (7442115426946752, -82),
      (8186326969641428, -82), (9004959666605572, -82), (4952727816633065, -81),
      (5448000598296372, -81), (5992800658126010, -81), (6592080723938612, -81),
      (7251288796332474, -81), (7976417675965722, -81), (8774059443562295, -81),
      (4825732693959263, -80), (5308305963355190, -80), (5839136559690709, -80),
      (6423050215659780, -80), (7065355237225759, -80), (7771890760948336, -80),
      (8549079837043170, -80), (4701993910373744, -79), (5172193301411119, -79),
      (5689412631552231, -79), (6258353894707455, -79), (6884189284178201, -79),
      (7572608212596022, -79), (8329869033855625, -79), (4581427968620594, -78),
      (5039570765482654, -78), (5543527842030920, -78), (6097880626234012, -78),
      (6707668688857414, -78), (7378435557743156, -78), (8116279113517472, -78),
      (8927907024869220, -78), (4910348863678071, -77), (5401383750045879, -77),
      (5941522125050467, -77), (6535674337555514, -77), (7189241771311066, -77),
      (7908165948442173, -77), (8698982543286391, -77), (4784440398807515, -76),
      (5262884438688267, -76), (5789172882557094, -76), (6368090170812804, -76),
      (7004899187894085, -76), (7705389106683494, -76), (8475928017351844, -76),
      (4661760409543515, -75), (5127936450497867, -75), (5640730095547654, -75),
      (6204803105102420, -75), (6825283415612663, -75), (7507811757173930, -75),
      (8258592932891324, -75), (4542226113090229, -74), (4996448724399252, -74),
      (5496093596839178, -74), (6045702956523096, -74), (6650273252175406, -74),
      (7315300577392947, -74), (8046830635132242, -74), (8851513698645467, -74),
      (4868332534255007, -73), (5355165787680508, -73), (5890682366448559, -73),
      (6479750603093415, -73), (7127725663402757, -73), (7840498229743033, -73),
      (8624548052717337, -73), (4743501428994536, -72), (5217851571893990, -72),
      (5739636729083389, -72), (6313600401991728, -72), (6944960442190901, -72),
      (7639456486409992, -72), (8403402135050992, -72), (4621871174278046, -71),
      (5084058291705851, -71), (5592464120876437, -71), (6151710532964081, -71),
      (6766881586260490, -71), (7443569744886540, -71), (8187926719375195, -71),
      (9006719391312715, -71), (4953695665221994, -70), (5449065231744194, -70),
      (5993971754918614, -70), (6593368930410476, -70), (7252705823451524, -70),
      (7977976405796677, -70), (8775774046376345, -70), (4826675725506990, -69),
      (5309343298057689, -69), (5840277627863458, -69), (6424305390649804, -69),
      (7066735929714785, -69), (7773409522686264, -69), (8550750474954891, -69),
      (4702912761225190, -68), (5173204037347709, -68), (5690524441082480, -68),
      (6259576885190729, -68), (6885534573709802, -68), (7574088031080783, -68),
      (8331496834188862, -68), (4582323258803874, -67), (5040555584684262, -67),
      (5544611143152689, -67), (6099072257467958, -67), (6708979483214754, -67),
      (7379877431536230, -67), (8117865174689854, -67), (8929651692158840, -67),
      (4911308430687362, -66), (5402439273756099, -66), (5942683201131709, -66),
      (6536951521244880, -66), (7190646673369369, -66), (7909711340706307, -66),
      (8700682474776938, -66), (4785375361127316, -65), (5263912897240048, -65),
      (5790304186964053, -65), (6369334605660459, -65), (7006268066226505, -65),
      (7706894872849156, -65), (8477584360134072, -65), (4662671398073740, -64),
      (5128938537881114, -64), (5641832391669226, -64), (6206015630836149, -64),
      (6826617193919764, -64), (7509278913311741, -64), (8260206804642916, -64),
      (4543113742553604, -63), (4997425116808965, -63), (5497167628489862, -63),
      (6046884391338849, -63), (6651572830472734, -63), (7316730113520008, -63),
      (8048403124872009, -63), (8853243437359211, -63), (4869283890547566, -62),
      (5356212279602323, -62), (5891833507562556, -62), (6481016858318812, -62),
      (7129118544150694, -62), (7842030398565764, -62), (8626233438422341, -62),
      (4744428391132288, -61), (5218871230245517, -61), (5740758353270069, -61),
      (6314834188597076, -61), (6946317607456784, -61), (7640949368202463, -61),
      (8405044305022710, -61), (4622774367762491, -60), (5085051804538741, -60),
      (5593556984992616, -60), (6152912683491878, -60), (6768203951841066, -60),
      (7445024347025173, -60), (8189526781727691, -60), (4504239729950230, -59),
      (4954663702945253, -59), (5450130073239779, -59), (5995143080563757, -59),
      (6594657388620133, -59), (7254123127482147, -59), (7979535440230362, -59),
      (8777488984253399, -59), (4827618941339370, -58), (5310380835473307, -58),
      (5841418919020638, -58), (6425560810922702, -58), (7068116892014973, -58),
      (7774928581216471, -58), (8552421439338119, -58), (4703831791635966, -57),
      (5174214970799563, -57), (5691636467879520, -57), (6260800114667473, -57),
      (6886880126134221, -57), (7575568138747644, -57), (8333124952622409, -57),
      (4583218723942325, -56), (5041540596336558, -56), (5545694655970214, -56),
      (6100264121567236, -56), (6710290533723960, -56), (7381319587096357, -56),
      (8119451545805993, -56), (8931396700386593, -56), (4912268185212627, -55),
      (5403495003733890, -55), (5943844504107279, -55), (6538228954518007, -55),
      (7192051849969808, -55), (7911257034966789, -55), (8702382738463469, -55),
      (4786310506154908, -54), (5264941556770399, -54), (5791435712447439, -54),
      (6370579283692183, -54), (7007637212061402, -54), (7708400933267543, -54),
      (8479241026594298, -54), (4663582564626864, -53), (5129940821089551, -53),
      (5642934903198507, -53), (6207228393518358, -53), (6827951232870194, -53),
      (7510746356157214, -53), (8261820991772936, -53), (4544001545475115, -52),
      (4998401700022627, -52), (5498241870024890, -52), (6048066057027379, -52),
      (6652872662730117, -52), (7318159929003129, -52), (8049975921903443, -52),
      (8854973514093788, -52), (4870235432751584, -51), (5357258976026743, -51),
      (5892984873629418, -51), (6482283360992360, -51), (7130511697091597, -51),
      (7843562866800757, -51), (8627919153480833, -51), (4745355534414459, -50),
      (5219891087855905, -50), (5741880196641496, -50), (6316068216305646, -50),
      (6947675037936211, -50), (7642442541729833, -50), (8406686795902817, -50),
      (4623677737746550, -49), (5086045511521205, -49), (5594650062673326, -49),
      (6154115068940659, -49), (6769526575834725, -49), (7446479233418198, -49),
      (8191127156760018, -49), (4505119936218010, -48), (4955631929839811, -48),
      (5451195122823793, -48), (5996314635106173, -48), (6595946098616791, -48),
      (7255540708478471, -48), (7981094779326319, -48), (8779204257258952, -48),
      (4828562341492424, -47), (5311418575641667, -47), (5842560433205834, -47),
      (6426816476526418, -47), (7069498124179060, -47), (7776447936596967, -47),
      (8554092730256664, -47), (4704751001641166, -46), (5175226101805283, -46),
      (5692748711985812, -46), (6262023583184394, -46), (6888225941502834, -46),
      (7577048535653118, -46), (8334753389218430, -46), (4584114364070137, -45),
      (5042525800477151, -45), (5546778380524867, -45), (6101456218577354, -45),
      (6711601840435090, -45), (7382762024478600, -45), (8121038226926461, -45),
      (8933142049619108, -45), (4913228127290510, -44), (5404550940019561, -44),
      (5945006034021518, -44), (6539506637423670, -44), (7193457301166038, -44),
      (7912803031282642, -44), (8704083334410907, -44), (4787245833925999, -43),
      (5265970417318599, -43), (5792567459050459, -43), (6371824204955505, -43),
      (7009006625451056, -43), (7709907287996162, -43), (8480898016795779, -43),
      (4664493909237679, -42), (5130943300161447, -42), (5644037630177592, -42),
      (6208441393195352, -42), (6829285532514888, -42), (7512214085766377, -42),
      (8263435494343015, -42), (4544889521888659, -41), (4999378474077525, -41),
      (5499316321485278, -41), (6049247953633806, -41), (6654172748997187, -41),
      (7319590023896906, -41), (8051549026286597, -41), (8856703928915257, -41),
      (4871187160903392, -40), (5358305876993732, -40), (5894136464693106, -40),
      (6483550111162417, -40), (7131905122278659, -40), (7845095634506526, -40),
      (8629605197957179, -40), (4746282858876449, -39), (5220911144764094, -39),
      (5743002259240504, -39), (6317302485164555, -39), (6949032733681011, -39),
      (7643936007049113, -39), (8408329607754025, -39), (4624581284264714, -38),
      (5087039412691186, -38), (5595743353960305, -38), (6155317689356336, -38),
      (6770849458291970, -38), (7447934404121168, -38), (8192727844533285, -38),
      (4506000314493307, -37), (4956600345942638, -37), (5452260380536902, -37),
      (5997486418590593, -37), (6597235060449653, -37), (7256958566494619, -37),
      (7982654423144082, -37), (8780919865458491, -37), (4829505926002170, -36),
      (5312456518602387, -36), (5843702170462626, -36), (6428072387508889, -36),
      (7070879626259778, -36), (7777967588885756, -36), (8555764347774332, -36),
      (4705670391275883, -35), (5176237430403472, -35), (5693861173443820, -35),
      (6263247290788203, -35), (6889572019867024, -35), (7578529221853727, -35),
      (8336382144039100, -35), (4585010179221505, -34), (5043511197143656, -34),
      (5547862316858022, -34), (6102648548543825, -34), (6712913403398208, -34),
      (7384204743738029, -34), (8122625218111833, -34), (8934887739923017, -34),
      (4914188256957660, -33), (5405607082653426, -33), (5946167790918769, -33),
      (6540784570010646, -33), (7194863027011711, -33), (7914349329712883, -33),
      (8705784262684172, -33), (4788181344476295, -32), (5266999478923925, -32),
      (5793699426816318, -32), (6373069369497950, -32), (7010376306447746, -32),
      (7711413937092521, -32), (8482555330801774, -32), (4665405431940976, -31),
      (5131945975135074, -31), (5645140572648582, -31), (6209654629913441, -31),
      (6830620092904786, -31), (7513682102195265, -31), (8265050312414792, -31),
      (4545777671828136, -30), (5000355439010950, -30), (5500390982912045, -30),
      (6050430081203250, -30), (6655473089323576, -30), (7321020398255934, -30),
      (8053122438081528, -30), (8858434681889682, -30), (4872139075039325, -29),
      (5359352982543258, -29), (5895288280797584, -29), (6484817108877343, -29),
      (7133298819765078, -29), (7846628701741586, -29), (8631291571915745, -29),
      (4747210364553660, -28), (5221931401009026, -28), (5744124541109929, -28),
      (6318536995220922, -28), (6950390694743015, -28), (7645429764217317, -28),
      (8409972740639049, -28), (4625485007351477, -27), (5088033508086625, -27),
      (5596836858895288, -27), (6156520544784817, -27), (6772172599263299, -27),
      (7449389859189630, -27), (8194328845108594, -27), (4506880864809727, -26),
      (4957568951290700, -26), (5453325846419770, -26), (5998658431061747, -26),
      (6598524274167922, -26), (7258376701584715, -26), (7984214371743187, -26),
      (8782635808917506, -26), (4830449694904629, -25), (5313494664395092, -25),
      (5844844130834602, -25), (6429328543918063, -25), (7072261398309870, -25),
      (7779487538140858, -25), (8557436291954944, -25), (4706589960575220, -24),
      (5177248956632742, -24), (5694973852296017, -24), (6264471237525619, -24),
      (6890918361278181, -24), (7580010197406000, -24), (8338011217146601, -24),
      (4585906169430631, -23), (5044496786373695, -23), (5548946465011065, -23),
      (6103841111512172, -23), (6714225222663390, -23), (7385647744929730, -23),
      (8124212519422704, -23), (8936633771364975, -23), (4915148574250737, -22),
      (5406663431675811, -22), (5947329774843393, -22), (6542062752327733, -22),
      (7196269027560507, -22), (7915895930316558, -22), (8707485523348215, -22),
      (4789117037841519, -21), (5268028741625671, -21), (5794831615788239, -21),
      (6374314777367063, -21), (7011746255103770, -21), (7712920880614148, -21),
      (8484212968675563, -21), (4666317132771560, -20), (5132948846048716, -20),
      (5646243730653588, -20), (6210868103718947, -20), (6831954914090842, -20),
      (7515150405499927, -20), (8266665446049920, -20), (4546665995327456, -19),
      (5001332594860202, -19), (5501465854346223, -19), (6051612439780846, -19),
      (6656773683758931, -19), (7322451052134825, -19), (8054696157348308, -19),
      (8860165773083140, -19), (4873091175195727, -18), (5360400292715300, -18),
      (5896440321986830, -18), (6486084354185514, -18), (7134692789604066, -18),
      (7848162068564473, -18), (8632978275420921, -18), (4748138051481507, -17),
      (5222951856629658, -17), (5745247042292624, -17), (6319771746521887, -17),
      (6951748921174076, -17), (7646923813291484, -17), (8411616194620633, -17),
      (4626388907041349, -16), (5089027797745484, -16), (5597930577520033, -16),
      (6157723635272037, -16), (6773495998799241, -16), (7450845598679166, -16),
      (8195930158547083, -16), (4507761587200896, -15), (4958537745920986, -15),
      (5454391520513085, -15), (5999830672564394, -15), (6599813739820834, -15),
      (7259795113802918, -15), (7985774625183210, -15), (8784352087701532, -15),
      (4831393648235843, -14), (5314533013059428, -14), (5845986314365371, -14),
      (6430584945801909, -14), (7073643440382100, -14), (7781007784420311, -14),
      (8559108562862343, -14), (4707509709574289, -13), (5178260680531718, -13),
      (5696086748584890, -13), (6265695423443380, -13), (6892264965787719, -13),
      (7581491462366492, -13), (8339640608603142, -13), (4586802334731728, -12),
      (5045482568204901, -12), (5550030825025392, -12), (6105033907527932, -12),
      (6715537298280726, -12), (7387091028108799, -12), (8125800130919680, -12),
      (8938380144011649, -12), (4916109079206407, -11), (5407719987127048, -11),
      (5948491985839753, -11), (6543341184423729, -11), (7197675302866102, -11),
      (7917442833152713, -11), (8709187116467985, -11), (4790052914057392, -10),
      (5269058205463132, -10), (5795964026009446, -10), (6375560428610391, -10),
      (7013116471471431, -10), (7714428118618575, -10), (8485870930480433, -10),
      (4667229011764239, -9), (5133951912940663, -9), (5647347104234730, -9),
      (6212081814658204, -9), (6833289996124025, -9), (7516618995736428, -9),
      (8268280895310071, -9), (4547554492420539, -8), (5002309941662593, -8),
      (5502540935828853, -8), (6052795029411739, -8), (6658074532352913, -8),
      (7323881985588205, -8), (8056270184147026, -8), (8861897202561729, -8),
      (4874043461408951, -7), (5361447807549847, -7), (5897592588304832, -7),
      (6487351847135316, -7), (7136087031848848, -7), (7849695735033733, -7),
      (8634665308537107, -7), (4749065919695409, -6), (5223972511664950, -6),
      (5746369762831445, -6), (6321006739114590, -6), (6953107413026050, -6),
      (7648418154328656, -6), (8413259969761522, -6), (4627292983368837, -5),
      (5090022281705721, -5), (5599024509876294, -5), (6158926960863924, -5),
      (6774819656950317, -5), (7452301622645349, -5), (8197531784909885, -5),
      (4508642481700437, -4), (4959506729870481, -4), (5455457402857530, -4),
      (6001003143143283, -4), (6601103457457612, -4), (7261213803203374, -4),
      (7987335183523712, -4), (8786068701876084, -4), (4832337786031847, -3),
      (5315571564635032, -3), (5847128721098536, -3), (6431841593208390, -3),
      (7075025752529230, -3), (7782528327782154, -3), (8560781160560370, -3),
      (4708429638308204, -2), (5179272602139025, -2), (5697199862352928, -2),
      (6266919848588221, -2), (6893611833447044, -2), (7582973016791749, -2),
      (8341270318470925, -2), (4587698675159009, -1), (5046468542674910, -1),
      (5551115396942401, -1), (6106226936636642, -1), (6716849630300307, -1),
      (7388534593330338, -1), (8127388052663372, -1), (8940126857929710, -1),
      (4917069771861341, 0), (5408776749047476, 0), (5949654423952224, 0),
      (6544619866347447, 0), (7199081852982192, 0), (7918990038280412, 0),
      (8710889042108454, 0), (4790988973159650, 1), (5270087870475615, 1),
      (5797096657523177, 1), (6376806323275495, 1), (7014486955603045, 1),
      (7715935651163350, 1), (8487529216279686, 1), (4668141068953828, 2),
      (5134955175849211, 2), (5648450693434133, 2), (6213295762777547, 2),
      (6834625339055302, 2), (7518087872960833, 2), (8269896660256917, 2),
      (4548443163141305, 3), (5003287479455436, 3), (5503616227400980, 3),
      (6053977850141078, 3), (6659375635155186, 3), (7325313198670705, 3),
      (8057844518537776, 3), (8863628970391554, 3), (4874995933715355, 4),
      (5362495527086891, 4), (5898745079795581, 4), (6488619587775140, 4),
      (7137481546552655, 4), (7851229701207921, 4), (8636352671328714, 4),
      (4749993969230793, 5), (5224993366153873, 5), (5747492702769261, 5),
      (6322241973046188, 5), (6954466170350807, 5), (7649912787385888, 5),
      (8414904066124477, 5), (4628197236368463, 6), (5091016960005310, 6),
      (5600118656005841, 6), (6160130521606426, 6), (6776143573767069, 6),
      (7453757931143777, 6), (8199133724258155, 6), (4509523548341986, 7),
      (4960475903176185, 7), (5456523493493804, 7), (6002175842843185, 7),
      (6602393427127504, 7), (7262632769840255, 7), (7988896046824281, 7),
      (8787785651506710, 7), (4833282108328691, 8), (5316610319161561, 8),
      (5848271351077718, 8), (6433098486185490, 8), (7076408334804040, 8),
      (7784049168284445, 8), (8562454085112890, 8), (4709349746812090, 9),
      (5180284721493299, 9), (5698313193642629, 9), (6268144513006892, 9),
      (6894958964307582, 9), (7584454860738341, 9), (8342900346812176, 9),
      (4588595190746697, 10), (5047454709821367, 10), (5552200180803504, 10),
      (6107420198883855, 10), (6718162218772241, 10), (7389978440649466, 10),
      (8128976284714413, 10), (8941873913185855, 10), (4918030652252221, 11),
      (5409833717477444, 11), (5950817089225189, 11), (6545898798147708, 11),
      (7200488677962479, 11), (7920537545758728, 11), (8712591300334602, 11),
      (4791925215184031, 12), (5271117736702435, 12), (5798229510372679, 12),
      (6378052461409947, 12), (7015857707550942, 12), (7717443478306037, 12),
      (8489187826136641, 12), (4669053304375153, 13), (5135958634812669, 13),
      (5649554498293936, 13), (6214509948123330, 13), (6835960942935664, 13),
      (7519557037229231, 13), (8271512740952155, 13), (4549332007523686, 14),
      (5004265208276055, 14), (5504691729103661, 14), (6055160902014028, 14)]"

definition grown_buckets :: "real list" where
  "grown_buckets = map dval grown_doubles"

text \<open>
  A run of the loop, as a list of doubles that can be checked without dividing: each
  element but the last is below \<open>10\<^sup>2\<^sup>0\<close> and its product with \<^verbatim>\<open>1.1\<close> rounds to the
  next one, and the last one is not below \<open>10\<^sup>2\<^sup>0\<close>. A mantissa \<open>q\<close> other than \<open>2\<^sup>5\<^sup>3\<close> is
  the rounded one of the product \<open>p\<close> when \<open>q \<sqdot> 2\<^sup>s\<close> is nearer than half a unit to \<open>p\<close>.
\<close>

definition rounds_to :: "nat \<times> int \<Rightarrow> nat \<times> int \<Rightarrow> nat \<times> int \<Rightarrow> bool" where
  "rounds_to a b c =
     (let p = fst a * fst b; s = (if p < 2 ^ 105 then 52 else 53::nat) in
      fst c \<noteq> 2 ^ 53 \<and> snd c = snd a + snd b + int s \<and>
      2 * \<bar>int p - int (fst c) * 2 ^ s\<bar> < 2 ^ s)"

fun grow_ok :: "(nat \<times> int) list \<Rightarrow> bool" where
  "grow_ok [] = False"
| "grow_ok [v] = (\<not> dval v < 10 ^ 20)"
| "grow_ok (v # v' # rest) =
     (dval v < 10 ^ 20 \<and> rounds_to v double_1_1 v' \<and> grow_ok (v' # rest))"

definition InitDefaultHistogramBuckets :: "real list option" where
  "InitDefaultHistogramBuckets =
     (case grow_buckets double_1e_minus_12 [] of
        None \<Rightarrow> None
      | Some buckets \<Rightarrow> Some (fill_bucket_limits (buckets @ [dbl_max])))"

definition DefaultHistogramBuckets :: "real list option" where
  \<comment> \<open>the function-local static: computed once, the same value at every call\<close>
  "DefaultHistogramBuckets = InitDefaultHistogramBuckets"

section \<open>The class \<^verbatim>\<open>Histogram\<close>\<close>

record Histogram =
  min_m :: real
  max_m :: real
  num_m :: real
  sum_m :: real
  sum_squares_m :: real
  bucket_limits_m :: "real list"
  buckets_m :: "real list"

definition Histogram_limits :: "real list \<Rightarrow> Histogram" where
  \<comment> \<open>\<^verbatim>\<open>explicit Histogram(const std::vector<double> limits)\<close>, with the member initialisers\<close>
  "Histogram_limits limits =
     \<lparr>min_m = dbl_max, max_m = - dbl_max, num_m = 0, sum_m = 0, sum_squares_m = 0,
      bucket_limits_m = limits, buckets_m = replicate (length limits) 0\<rparr>"

definition Histogram_default :: "Histogram option" where
  \<comment> \<open>\<^verbatim>\<open>Histogram()\<close>\<close>
  "Histogram_default = map_option Histogram_limits DefaultHistogramBuckets"

text \<open>
  \<^verbatim>\<open>buckets_[bucket] += 1.0\<close> is an unchecked \<^verbatim>\<open>operator[]\<close>: with an index that is not
  below \<^verbatim>\<open>buckets_.size()\<close> the behaviour is undefined, which the model makes a fault
  carrying the index and the size.
\<close>

datatype fault = BucketOutOfRange nat nat

definition Add :: "Histogram \<Rightarrow> real \<Rightarrow> fault + Histogram" where
  "Add h val =
     (let h = (if val < min_m h then h\<lparr>min_m := val\<rparr> else h);
          h = (if max_m h < val then h\<lparr>max_m := val\<rparr> else h);
          h = h\<lparr>num_m := num_m h + 1\<rparr>;
          h = h\<lparr>sum_m := sum_m h + val\<rparr>;
          h = h\<lparr>sum_squares_m := sum_squares_m h + val * val\<rparr>;
          bucket = upper_bound (bucket_limits_m h) val
      in if bucket < length (buckets_m h)
         then Inr (h\<lparr>buckets_m := (buckets_m h)[bucket := buckets_m h ! bucket + 1]\<rparr>)
         else Inl (BucketOutOfRange bucket (length (buckets_m h))))"

text \<open>
  The calls \<^verbatim>\<open>histogram.Add(value)\<close> of the loop of
  \<^verbatim>\<open>SummaryHistogramOp::ComputeImpl\<close>, one per value, in order.
\<close>

fun AddAll :: "Histogram \<Rightarrow> real list \<Rightarrow> fault + Histogram" where
  "AddAll h [] = Inr h"
| "AddAll h (v # vs) = (case Add h v of Inl f \<Rightarrow> Inl f | Inr h' \<Rightarrow> AddAll h' vs)"

text \<open>
  \<^verbatim>\<open>tensorboard::HistogramProto\<close>: the five scalars and the two repeated fields. A new
  message has the scalars at \<open>0\<close> and both repeated fields empty.
\<close>

record HistogramProto =
  p_min :: real
  p_max :: real
  p_num :: real
  p_sum :: real
  p_sum_squares :: real
  bucket_limit :: "real list"
  bucket :: "real list"

definition HistogramProto_new :: HistogramProto where
  "HistogramProto_new =
     \<lparr>p_min = 0, p_max = 0, p_num = 0, p_sum = 0, p_sum_squares = 0,
      bucket_limit = [], bucket = []\<rparr>"

definition serialize_step :: "Histogram \<Rightarrow> HistogramProto \<Rightarrow> nat \<Rightarrow> HistogramProto" where
  \<comment> \<open>the body of the loop over \<open>i\<close>\<close>
  "serialize_step h histogram i =
     (if buckets_m h ! i = 0 \<and>
         (0 < length (bucket histogram) \<and>
          bucket histogram ! (length (bucket histogram) - 1) = 0)
      then histogram\<lparr>bucket_limit :=
             (bucket_limit histogram)[length (bucket_limit histogram) - 1 := bucket_limits_m h ! i]\<rparr>
      else histogram\<lparr>bucket := bucket histogram @ [buckets_m h ! i],
                     bucket_limit := bucket_limit histogram @ [bucket_limits_m h ! i]\<rparr>)"

definition SerializeToProto :: "Histogram \<Rightarrow> HistogramProto \<Rightarrow> HistogramProto" where
  "SerializeToProto h histogram =
     (let histogram = histogram\<lparr>p_max := max_m h, p_min := min_m h, p_num := num_m h,
                                 p_sum := sum_m h, p_sum_squares := sum_squares_m h\<rparr>;
          histogram = foldl (serialize_step h) histogram [0..<length (buckets_m h)]
      in if length (bucket histogram) = 0
         then histogram\<lparr>bucket := bucket histogram @ [0],
                        bucket_limit := bucket_limit histogram @ [dbl_max]\<rparr>
         else histogram)"

text \<open>The exported (count, edge) pairs.\<close>

definition pairs :: "HistogramProto \<Rightarrow> (real \<times> real) list" where
  "pairs histogram = zip (bucket histogram) (bucket_limit histogram)"

text \<open>
  The bucket-merging rule in the specification's words, on the list of (count, edge)
  pairs of the table: the pair emitted last is carried along; a bucket with count zero
  after an emitted pair with count zero emits nothing and widens that pair's edge.
\<close>

fun merge_from :: "real \<times> real \<Rightarrow> (real \<times> real) list \<Rightarrow> (real \<times> real) list" where
  "merge_from (c, e) [] = [(c, e)]"
| "merge_from (c, e) ((c', e') # rest) =
     (if c' = 0 \<and> c = 0 then merge_from (c, e') rest
      else (c, e) # merge_from (c', e') rest)"

fun merged_pairs :: "(real \<times> real) list \<Rightarrow> (real \<times> real) list" where
  "merged_pairs [] = [(0, dbl_max)]"
| "merged_pairs (p # ps) = merge_from p ps"

fun adjacent_zeros :: "real list \<Rightarrow> bool" where
  "adjacent_zeros (a # b # cs) = ((a = 0 \<and> b = 0) \<or> adjacent_zeros (b # cs))"
| "adjacent_zeros _ = False"

section \<open>\<^verbatim>\<open>SummaryMergeOp::Compute\<close>\<close>

text \<open>
  \<^verbatim>\<open>tensorboard::Summary\<close> is a list of values, each with a tag and one content. An
  input tensor either holds strings (the model keeps the element \<^verbatim>\<open>*input_data\<close>) or
  has another element type. Parsing and serialising are protobuf's: \<open>parse\<close>
  (\<^verbatim>\<open>ParseFromString\<close>, \<open>None\<close> when it returns false) and \<open>serialize\<close>
  (\<^verbatim>\<open>SerializeAsString\<close>) are parameters.
\<close>

datatype SummaryContent = simple_value real | histo HistogramProto | other_content string

record SummaryValue =
  tag :: string
  content :: SummaryContent

type_synonym Summary = "SummaryValue list"

datatype Tensor = StringTensor string | OtherTensor

datatype merge_error =
    InputNotString       \<comment> \<open>\<^verbatim>\<open>SummaryMerge input must be a string\<close>\<close>
  | ParseFailed          \<comment> \<open>\<^verbatim>\<open>SummaryMerge failed to parse input tensor as a serialized Summary proto\<close>\<close>
  | DuplicateTag string  \<comment> \<open>\<^verbatim>\<open>INVALID_ARGUMENT\<close>, \<^verbatim>\<open>SummaryMerge inputs contain duplicate tag: \<close> and the tag\<close>

fun merge_values ::
  "SummaryValue list \<Rightarrow> string set \<times> Summary \<Rightarrow> merge_error + string set \<times> Summary" where
  "merge_values [] (tags, summary) = Inr (tags, summary)"
| "merge_values (summary_value # rest) (tags, summary) =
     (if tag summary_value \<noteq> [] \<and> tag summary_value \<in> tags
      then Inl (DuplicateTag (tag summary_value))
      else merge_values rest
             (if tag summary_value \<noteq> [] then insert (tag summary_value) tags else tags,
              summary @ [summary_value]))"

fun merge_inputs ::
  "(string \<Rightarrow> Summary option) \<Rightarrow> Tensor list \<Rightarrow> string set \<times> Summary \<Rightarrow>
   merge_error + string set \<times> Summary" where
  "merge_inputs parse [] st = Inr st"
| "merge_inputs parse (OtherTensor # rest) st = Inl InputNotString"
| "merge_inputs parse (StringTensor input_data # rest) st =
     (case parse input_data of
        None \<Rightarrow> Inl ParseFailed
      | Some input_summary \<Rightarrow>
          (case merge_values input_summary st of
             Inl e \<Rightarrow> Inl e
           | Inr st' \<Rightarrow> merge_inputs parse rest st'))"

definition SummaryMergeOp_Compute ::
  "(string \<Rightarrow> Summary option) \<Rightarrow> (Summary \<Rightarrow> string) \<Rightarrow> Tensor list \<Rightarrow> merge_error + string" where
  "SummaryMergeOp_Compute parse serialize inputs =
     (case merge_inputs parse inputs ({}, []) of
        Inl e \<Rightarrow> Inl e
      | Inr (tags, summary) \<Rightarrow> Inr (serialize summary))"

text \<open>The value entries of the inputs, in input order; \<open>None\<close> when an input is not a
  string tensor or does not parse.\<close>

fun parsed_values :: "(string \<Rightarrow> Summary option) \<Rightarrow> Tensor list \<Rightarrow> Summary option" where
  "parsed_values parse [] = Some []"
| "parsed_values parse (OtherTensor # rest) = None"
| "parsed_values parse (StringTensor input_data # rest) =
     (case parse input_data of
        None \<Rightarrow> None
      | Some input_summary \<Rightarrow> map_option ((@) input_summary) (parsed_values parse rest))"

definition nonempty_tags :: "Summary \<Rightarrow> string list" where
  "nonempty_tags summary = filter (\<lambda>t. t \<noteq> []) (map tag summary)"

section \<open>\<^verbatim>\<open>DataLoader\<close>\<close>

text \<open>
  \<^verbatim>\<open>size_t\<close> is 64 bits wide. The loader's cursor, its preload count and the indices
  of a task are \<^verbatim>\<open>size_t\<close> and are words here, with the wrap-around of \<^verbatim>\<open>+\<close> and
  \<^verbatim>\<open>-\<close> and the unsigned \<^verbatim>\<open>%\<close> and \<^verbatim>\<open>>\<close>. The constructor's \<^verbatim>\<open>world_rank\<close> and
  \<^verbatim>\<open>world_size\<close> are only compared and used as a modulus, and the \<^verbatim>\<open>int count\<close> of
  its loop only counts files (fewer than \<open>2 ^ 31\<close>): they are natural numbers.

  The thread pool is a list of scheduled tasks: \<^verbatim>\<open>Schedule\<close> appends the captured
  \<^verbatim>\<open>(index_to_load, need_remove, index_to_remove)\<close>, and \<open>run_task\<close> is the body of the
  lambda, which a pool thread runs later. \<open>LoadFile\<close> reads the file system and is a
  parameter (\<open>None\<close> when its status is not OK).
\<close>

type_synonym size_t = "64 word"

type_synonym task = "size_t \<times> bool \<times> size_t"

datatype loader_error =
    WorldRankOutOfRange nat  \<comment> \<open>\<^verbatim>\<open>ORT_THROW("world_rank must be 0~", world_size - 1)\<close>\<close>
  | DivisionByZero           \<comment> \<open>\<^verbatim>\<open>% NumShards()\<close> with no shard\<close>
  | FileOutOfRange nat nat   \<comment> \<open>\<^verbatim>\<open>data_files_[index_to_load]\<close> past the end: index and size\<close>

record 'd DataLoader =
  input_tensor_names :: "string list"
  input_to_feature_index_map :: "string \<rightharpoonup> nat"
  data_files :: "string list"
  max_num_files_preload :: size_t
  active_file_index :: size_t
  buffer :: "size_t \<rightharpoonup> 'd option"
  scheduled :: "task list"
  warnings :: "string list"

definition partition_step :: "nat \<Rightarrow> nat \<Rightarrow> nat \<times> string list \<Rightarrow> string \<Rightarrow> nat \<times> string list" where
  \<comment> \<open>\<^verbatim>\<open>if ((count++ % world_size) == world_rank) partial_training_files.push_back(file);\<close>, with \<open>file_count\<close> for \<^verbatim>\<open>count\<close>\<close>
  "partition_step world_rank world_size st file =
     (case st of (file_count, partial_training_files) \<Rightarrow>
        (file_count + 1,
         if file_count mod world_size = world_rank then partial_training_files @ [file]
         else partial_training_files))"

text \<open>
  The constructor, from the list that \<^verbatim>\<open>GetAllDataFiles(dir_path)\<close> returns.
  Modelled from the spec: \<^verbatim>\<open>data_loader.h\<close>, which declares the members, is not among
  the sources; the cursor \<^verbatim>\<open>active_file_index_\<close> starts at the first shard and the
  buffer starts empty.
\<close>

definition DataLoader_new ::
  "(string \<times> string) list \<Rightarrow> string list \<Rightarrow> size_t \<Rightarrow> nat \<Rightarrow> nat \<Rightarrow> loader_error + 'd DataLoader" where
  "DataLoader_new input_name_map all_data_files max_num_files_preload_arg world_rank world_size =
     (let names = map snd input_name_map;
          index_map = foldl (\<lambda>m (k, i). m(k \<mapsto> i)) Map.empty
                        (zip (map fst input_name_map) [0..<length input_name_map]);
          loader = \<lambda>files.
            \<lparr>input_tensor_names = names, input_to_feature_index_map = index_map,
             data_files = files, max_num_files_preload = max_num_files_preload_arg,
             active_file_index = 0, buffer = Map.empty, scheduled = [], warnings = []\<rparr>
      in if 1 < world_size then
           (if world_size \<le> world_rank then Inl (WorldRankOutOfRange (world_size - 1))
            else Inr (loader (snd (foldl (partition_step world_rank world_size) (0, [])
                                     all_data_files))))
         else Inr (loader all_data_files))"

text \<open>
  Striping in the specification's words: the files at the list positions \<open>i\<close> with
  \<open>i mod world_size = world_rank\<close>, in list order.
\<close>

definition stripe :: "string list \<Rightarrow> nat \<Rightarrow> nat \<Rightarrow> string list" where
  "stripe files world_size world_rank =
     map (\<lambda>i. files ! i) (filter (\<lambda>i. i mod world_size = world_rank) [0..<length files])"

text \<open>
  Modelled from the spec: \<^verbatim>\<open>NumShards\<close>, \<^verbatim>\<open>CurrentDataSet\<close> and the buffer class with
  its \<^verbatim>\<open>Set\<close> and \<^verbatim>\<open>Remove\<close> are defined in \<^verbatim>\<open>data_loader.h\<close>. The shard count is the
  number of this loader's files; the buffer is a sparse map from shard index to a data
  set or to the null marker of a failed load (\<open>Some None\<close>); the current data set is the
  buffer's entry at the active index, null when there is none.
\<close>

definition NumShards :: "'d DataLoader \<Rightarrow> size_t" where
  "NumShards s = of_nat (length (data_files s))"

definition CurrentDataSet :: "'d DataLoader \<Rightarrow> 'd option" where
  "CurrentDataSet s = (case buffer s (active_file_index s) of None \<Rightarrow> None | Some p \<Rightarrow> p)"

definition LoadAndRemoveInternalAsync :: "'d DataLoader \<Rightarrow> size_t \<Rightarrow> bool \<Rightarrow> size_t \<Rightarrow> 'd DataLoader" where
  "LoadAndRemoveInternalAsync s index_to_load need_remove index_to_remove =
     s\<lparr>scheduled := scheduled s @ [(index_to_load, need_remove, index_to_remove)]\<rparr>"

definition InitialPreLoadAsync :: "'d DataLoader \<Rightarrow> 'd DataLoader" where
  "InitialPreLoadAsync s =
     foldl (\<lambda>s i. LoadAndRemoveInternalAsync s (of_nat i) False 0) s
       [0..<unat (min (max_num_files_preload s) (NumShards s))]"

definition MoveToNextDataSet :: "'d DataLoader \<Rightarrow> loader_error + 'd option \<times> 'd DataLoader" where
  "MoveToNextDataSet s =
     (if NumShards s = 0 then Inl DivisionByZero
      else
        (let index_to_remove = active_file_index s;
             s = s\<lparr>active_file_index := (active_file_index s + 1) mod NumShards s\<rparr>;
             index_to_load = (active_file_index s + max_num_files_preload s - 1) mod NumShards s;
             s = LoadAndRemoveInternalAsync s index_to_load True index_to_remove
         in Inr (CurrentDataSet s, s)))"

definition run_task :: "(string \<Rightarrow> 'd option) \<Rightarrow> 'd DataLoader \<Rightarrow> task \<Rightarrow> loader_error + 'd DataLoader" where
  "run_task LoadFile s t =
     (case t of (index_to_load, need_remove, index_to_remove) \<Rightarrow>
        if index_to_load > of_nat (length (data_files s)) - 1
        then Inr (s\<lparr>warnings := warnings s @ [''Value of index_to_load is not in valid range'']\<rparr>)
        else if length (data_files s) \<le> unat index_to_load
        then Inl (FileOutOfRange (unat index_to_load) (length (data_files s)))
        else
          (let s = (case LoadFile (data_files s ! unat index_to_load) of
                      None \<Rightarrow> s\<lparr>warnings := warnings s @ [''Fail to load file of index''],
                                 buffer := (buffer s)(index_to_load \<mapsto> None)\<rparr>
                    | Some data_set \<Rightarrow> s\<lparr>buffer := (buffer s)(index_to_load \<mapsto> Some data_set)\<rparr>);
               s = (if need_remove then s\<lparr>buffer := (buffer s)(index_to_remove := None)\<rparr> else s)
           in Inr s))"

section \<open>Properties of the search\<close>

lemma upper_bound_loop_all_le:
  "(\<And>j. first \<le> j \<Longrightarrow> j < first + len \<Longrightarrow> xs ! j \<le> val) \<Longrightarrow>
   upper_bound_loop xs val first len = first + len"
proof (induction xs val first len rule: upper_bound_loop.induct)
  case (1 xs val first len)
  show ?case
  proof (cases "0 < len")
    case False
    then show ?thesis by simp
  next
    case True
    have mid: "\<not> val < xs ! (first + len div 2)"
      using "1.prems"[of "first + len div 2"] True by simp
    have "upper_bound_loop xs val (first + len div 2 + 1) (len - len div 2 - 1)
          = first + len div 2 + 1 + (len - len div 2 - 1)"
      using True mid "1.prems" by (intro "1.IH"(2)[OF True refl refl]) auto
    moreover have "upper_bound_loop xs val first len
          = upper_bound_loop xs val (first + len div 2 + 1) (len - len div 2 - 1)"
      using True mid by (subst upper_bound_loop.simps) (simp add: Let_def)
    ultimately show ?thesis using True by simp
  qed
qed

lemma upper_bound_all_le:
  "\<forall>x \<in> set xs. x \<le> val \<Longrightarrow> upper_bound xs val = length xs"
  unfolding upper_bound_def by (subst upper_bound_loop_all_le) auto

lemma upper_bound_loop_sorted:
  "sorted xs \<Longrightarrow> first + len \<le> length xs \<Longrightarrow>
   (\<And>j. j < first \<Longrightarrow> xs ! j \<le> val) \<Longrightarrow>
   (\<And>j. first + len \<le> j \<Longrightarrow> j < length xs \<Longrightarrow> val < xs ! j) \<Longrightarrow>
   upper_bound_loop xs val first len \<le> length xs \<and>
   (\<forall>j < upper_bound_loop xs val first len. xs ! j \<le> val) \<and>
   (\<forall>j. upper_bound_loop xs val first len \<le> j \<and> j < length xs \<longrightarrow> val < xs ! j)"
proof (induction xs val first len rule: upper_bound_loop.induct)
  case (1 xs val first len)
  show ?case
  proof (cases "0 < len")
    case False
    then show ?thesis using "1.prems" by simp
  next
    case True
    let ?m = "first + len div 2"
    have m_lt: "?m < length xs" using True "1.prems"(2) by simp
    show ?thesis
    proof (cases "val < xs ! ?m")
      case left: True
      have eq: "upper_bound_loop xs val first len = upper_bound_loop xs val first (len div 2)"
        using True left by (subst upper_bound_loop.simps) (simp add: Let_def)
      have above: "val < xs ! j" if "?m \<le> j" "j < length xs" for j
      proof -
        have "xs ! ?m \<le> xs ! j" using \<open>sorted xs\<close> that by (simp add: sorted_nth_mono)
        with left show ?thesis by simp
      qed
      have "upper_bound_loop xs val first (len div 2) \<le> length xs \<and>
            (\<forall>j < upper_bound_loop xs val first (len div 2). xs ! j \<le> val) \<and>
            (\<forall>j. upper_bound_loop xs val first (len div 2) \<le> j \<and> j < length xs \<longrightarrow> val < xs ! j)"
        using "1.prems" m_lt above left True
        by (intro "1.IH"(1)[OF True refl refl]) auto
      with eq show ?thesis by simp
    next
      case right: False
      have eq: "upper_bound_loop xs val first len
                = upper_bound_loop xs val (?m + 1) (len - len div 2 - 1)"
        using True right by (subst upper_bound_loop.simps) (simp add: Let_def)
      have below: "xs ! j \<le> val" if "j < ?m + 1" for j
      proof -
        have "xs ! j \<le> xs ! ?m" using \<open>sorted xs\<close> that m_lt by (simp add: sorted_nth_mono)
        with right show ?thesis by simp
      qed
      have "upper_bound_loop xs val (?m + 1) (len - len div 2 - 1) \<le> length xs \<and>
            (\<forall>j < upper_bound_loop xs val (?m + 1) (len - len div 2 - 1). xs ! j \<le> val) \<and>
            (\<forall>j. upper_bound_loop xs val (?m + 1) (len - len div 2 - 1) \<le> j \<and> j < length xs
                  \<longrightarrow> val < xs ! j)"
        using "1.prems" m_lt below right True
        by (intro "1.IH"(2)[OF True refl refl]) auto
      with eq show ?thesis by simp
    qed
  qed
qed

lemma first_greater_le: "first_greater xs val \<le> length xs"
  by (induction xs) auto

lemma first_greater_below: "j < first_greater xs val \<Longrightarrow> xs ! j \<le> val"
proof (induction xs arbitrary: j)
  case Nil
  then show ?case by simp
next
  case (Cons e es)
  then show ?case by (cases j) (auto split: if_splits)
qed

lemma first_greater_at:
  "first_greater xs val < length xs \<Longrightarrow> val < xs ! first_greater xs val"
  by (induction xs) auto

lemma first_greater_unique:
  "r \<le> length xs \<Longrightarrow> (\<And>j. j < r \<Longrightarrow> xs ! j \<le> val) \<Longrightarrow>
   (r < length xs \<Longrightarrow> val < xs ! r) \<Longrightarrow> first_greater xs val = r"
proof (induction xs arbitrary: r)
  case Nil
  then show ?case by simp
next
  case (Cons e es)
  show ?case
  proof (cases r)
    case 0
    then show ?thesis using Cons.prems(3) by simp
  next
    case (Suc r')
    have "\<not> val < e" using Cons.prems(2)[of 0] Suc by simp
    moreover have "first_greater es val = r'"
    proof (rule Cons.IH)
      show "r' \<le> length es" using Cons.prems(1) Suc by simp
      show "es ! j \<le> val" if "j < r'" for j using Cons.prems(2)[of "Suc j"] that Suc by simp
      show "val < es ! r'" if "r' < length es" using Cons.prems(3) that Suc by simp
    qed
    ultimately show ?thesis using Suc by simp
  qed
qed

lemma first_greater_exists:
  "\<exists>e \<in> set xs. val < e \<Longrightarrow> first_greater xs val < length xs"
  by (induction xs) auto

lemma upper_bound_sorted:
  assumes "sorted xs"
  shows "upper_bound xs val = first_greater xs val"
proof -
  let ?r = "upper_bound_loop xs val 0 (length xs)"
  have "?r \<le> length xs \<and> (\<forall>j < ?r. xs ! j \<le> val) \<and>
        (\<forall>j. ?r \<le> j \<and> j < length xs \<longrightarrow> val < xs ! j)"
    using assms by (intro upper_bound_loop_sorted) auto
  then have "first_greater xs val = ?r"
    by (intro first_greater_unique) auto
  then show ?thesis by (simp add: upper_bound_def)
qed

section \<open>\<^verbatim>\<open>Histogram::Add\<close>\<close>

lemma Add_Inr:
  "upper_bound (bucket_limits_m h) val < length (buckets_m h) \<Longrightarrow>
   Add h val =
     Inr (h\<lparr>min_m := (if val < min_m h then val else min_m h),
            max_m := (if max_m h < val then val else max_m h),
            num_m := num_m h + 1, sum_m := sum_m h + val,
            sum_squares_m := sum_squares_m h + val * val,
            buckets_m := (buckets_m h)[upper_bound (bucket_limits_m h) val :=
                buckets_m h ! upper_bound (bucket_limits_m h) val + 1]\<rparr>)"
  by (simp add: Add_def Let_def)

lemma Add_Inl:
  "\<not> upper_bound (bucket_limits_m h) val < length (buckets_m h) \<Longrightarrow>
   Add h val = Inl (BucketOutOfRange (upper_bound (bucket_limits_m h) val) (length (buckets_m h)))"
  by (simp add: Add_def Let_def)

text \<open>
  Sorted edges. On a histogram whose edges are sorted (and whose two vectors have the same
  length, as both constructors make them), \<^verbatim>\<open>Add(val)\<close> for a value below some edge
  returns normally, leaves the edges alone and increments exactly the count at the index
  of the first edge strictly greater than \<open>val\<close>: that index is in range, the edge there is
  above \<open>val\<close>, every edge before it is at most \<open>val\<close>, and every position whose edge
  equals \<open>val\<close> lies strictly before it. With edges \<open>[0, 1, 2]\<close>, \<^verbatim>\<open>Add(1)\<close> increments
  the count at index 2. The default table is not sorted, and a value that no edge exceeds
  has no such index: both cases are in the last section.
\<close>

theorem Add_increments_first_greater_bucket:
  assumes "sorted (bucket_limits_m h)"
    and "length (buckets_m h) = length (bucket_limits_m h)"
    and "\<exists>e \<in> set (bucket_limits_m h). val < e"
  shows "\<exists>h'. Add h val = Inr h' \<and>
           buckets_m h' = (buckets_m h)[first_greater (bucket_limits_m h) val :=
              buckets_m h ! first_greater (bucket_limits_m h) val + 1] \<and>
           bucket_limits_m h' = bucket_limits_m h \<and>
           first_greater (bucket_limits_m h) val < length (bucket_limits_m h) \<and>
           val < bucket_limits_m h ! first_greater (bucket_limits_m h) val \<and>
           (\<forall>j < first_greater (bucket_limits_m h) val. bucket_limits_m h ! j \<le> val) \<and>
           (\<forall>k < length (bucket_limits_m h).
              bucket_limits_m h ! k = val \<longrightarrow> k < first_greater (bucket_limits_m h) val)"
proof -
  let ?xs = "bucket_limits_m h"
  let ?i = "first_greater ?xs val"
  have ub: "upper_bound ?xs val = ?i" using assms(1) by (rule upper_bound_sorted)
  have lt: "?i < length ?xs" using assms(3) by (rule first_greater_exists)
  have at: "val < ?xs ! ?i" using lt by (rule first_greater_at)
  have below: "\<forall>j < ?i. ?xs ! j \<le> val" by (simp add: first_greater_below)
  have after: "k < ?i" if "k < length ?xs" "?xs ! k = val" for k
  proof (rule ccontr)
    assume "\<not> k < ?i"
    then have "?xs ! ?i \<le> ?xs ! k" using assms(1) that(1) by (simp add: sorted_nth_mono)
    with at that(2) show False by simp
  qed
  have "Add h val = Inr (h\<lparr>min_m := (if val < min_m h then val else min_m h),
            max_m := (if max_m h < val then val else max_m h),
            num_m := num_m h + 1, sum_m := sum_m h + val,
            sum_squares_m := sum_squares_m h + val * val,
            buckets_m := (buckets_m h)[?i := buckets_m h ! ?i + 1]\<rparr>)"
    using Add_Inr[of h val] ub lt assms(2) by simp
  then show ?thesis using lt at below after by auto
qed

theorem Add_increments_first_greater_bucket_witness:
  "sorted [0, 1, 2 :: real] \<and>
   (\<exists>h'. Add (Histogram_limits [0, 1, 2]) 1 = Inr h' \<and> buckets_m h' = [0, 0, 1] \<and>
          bucket_limits_m h' = [0, 1, 2])"
  using Add_increments_first_greater_bucket [of "Histogram_limits [0, 1, 2]" 1]
  by (auto simp add: Histogram_limits_def)

section \<open>\<^verbatim>\<open>Histogram::SerializeToProto\<close>\<close>

lemma merge_from_nonempty: "merge_from p rest \<noteq> []"
  by (induction p rest rule: merge_from.induct) auto

lemma merge_from_hd: "fst (hd (merge_from (c, e) rest)) = c"
  by (induction "(c, e)" rest arbitrary: e rule: merge_from.induct) auto

lemma merge_from_snoc:
  "merge_from p (rest @ [(c, e)]) =
     (if c = 0 \<and> fst (last (merge_from p rest)) = 0
      then butlast (merge_from p rest) @ [(fst (last (merge_from p rest)), e)]
      else merge_from p rest @ [(c, e)])"
proof (induction p rest rule: merge_from.induct)
  case (1 c0 e0)
  then show ?case by simp
next
  case (2 c0 e0 c' e' rest)
  show ?case
  proof (cases "c' = 0 \<and> c0 = 0")
    case True
    then show ?thesis using "2.IH"(1) by simp
  next
    case False
    then show ?thesis using "2.IH"(2) by (auto simp add: merge_from_nonempty)
  qed
qed

lemma merge_from_no_adjacent_zeros: "\<not> adjacent_zeros (map fst (merge_from p rest))"
proof (induction p rest rule: merge_from.induct)
  case (1 c e)
  then show ?case by simp
next
  case (2 c e c' e' rest)
  obtain q qs where q: "merge_from (c', e') rest = q # qs"
    using merge_from_nonempty[of "(c', e')" rest] by (cases "merge_from (c', e') rest") auto
  have "fst q = c'" using merge_from_hd[of c' e' rest] q by simp
  with 2 q show ?case by auto
qed

lemma merge_from_sum: "sum_list (map fst (merge_from p rest)) = fst p + sum_list (map fst rest)"
  by (induction p rest rule: merge_from.induct) auto

text \<open>The loop body, on the pair of the table at index \<open>i\<close>.\<close>

lemma serialize_step_pairs:
  assumes "bucket p = map fst (case ps of [] \<Rightarrow> [] | q # qs \<Rightarrow> merge_from q qs)"
    and "bucket_limit p = map snd (case ps of [] \<Rightarrow> [] | q # qs \<Rightarrow> merge_from q qs)"
    and "buckets_m h ! i = c" "bucket_limits_m h ! i = e"
  shows "bucket (serialize_step h p i)
           = map fst (case ps @ [(c, e)] of [] \<Rightarrow> [] | q # qs \<Rightarrow> merge_from q qs) \<and>
         bucket_limit (serialize_step h p i)
           = map snd (case ps @ [(c, e)] of [] \<Rightarrow> [] | q # qs \<Rightarrow> merge_from q qs)"
proof (cases ps)
  case Nil
  then show ?thesis using assms by (simp add: serialize_step_def)
next
  case (Cons q qs)
  obtain bo lo where mq: "merge_from q qs = bo @ [lo]"
    using merge_from_nonempty[of q qs] by (metis append_butlast_last_id)
  have b: "bucket p = map fst bo @ [fst lo]" and l: "bucket_limit p = map snd bo @ [snd lo]"
    using assms(1,2) Cons mq by simp_all
  have lastb: "bucket p ! (length (bucket p) - 1) = fst lo"
    using b by (simp add: nth_append)
  have upd: "(bucket_limit p)[length (bucket_limit p) - 1 := e] = map snd bo @ [e]"
    using l by (simp add: list_update_append)
  have pos: "0 < length (bucket p)" using b by simp
  show ?thesis
  proof (cases "c = 0 \<and> fst lo = 0")
    case True
    have m: "merge_from q (qs @ [(c, e)]) = bo @ [(fst lo, e)]"
      using True mq by (simp add: merge_from_snoc)
    have s: "serialize_step h p i =
               p\<lparr>bucket_limit := (bucket_limit p)[length (bucket_limit p) - 1 := e]\<rparr>"
      using True assms(3,4) lastb pos by (simp add: serialize_step_def)
    show ?thesis unfolding s using Cons m b upd by simp
  next
    case False
    have m: "merge_from q (qs @ [(c, e)]) = bo @ [lo, (c, e)]"
      using False mq by (auto simp add: merge_from_snoc)
    have s: "serialize_step h p i =
               p\<lparr>bucket := bucket p @ [c], bucket_limit := bucket_limit p @ [e]\<rparr>"
      using False assms(3,4) lastb by (auto simp add: serialize_step_def)
    show ?thesis unfolding s using Cons m b l by simp
  qed
qed

lemma serialize_loop_pairs:
  assumes "bucket p0 = []" "bucket_limit p0 = []"
  shows "bucket (foldl (serialize_step h) p0 [0..<n])
           = map fst (case map (\<lambda>i. (buckets_m h ! i, bucket_limits_m h ! i)) [0..<n] of
                        [] \<Rightarrow> [] | q # qs \<Rightarrow> merge_from q qs) \<and>
         bucket_limit (foldl (serialize_step h) p0 [0..<n])
           = map snd (case map (\<lambda>i. (buckets_m h ! i, bucket_limits_m h ! i)) [0..<n] of
                        [] \<Rightarrow> [] | q # qs \<Rightarrow> merge_from q qs)"
proof (induction n)
  case 0
  then show ?case using assms by simp
next
  case (Suc n)
  have "bucket (serialize_step h (foldl (serialize_step h) p0 [0..<n]) n)
          = map fst (case map (\<lambda>i. (buckets_m h ! i, bucket_limits_m h ! i)) [0..<n]
                            @ [(buckets_m h ! n, bucket_limits_m h ! n)] of
                        [] \<Rightarrow> [] | q # qs \<Rightarrow> merge_from q qs) \<and>
        bucket_limit (serialize_step h (foldl (serialize_step h) p0 [0..<n]) n)
          = map snd (case map (\<lambda>i. (buckets_m h ! i, bucket_limits_m h ! i)) [0..<n]
                            @ [(buckets_m h ! n, bucket_limits_m h ! n)] of
                        [] \<Rightarrow> [] | q # qs \<Rightarrow> merge_from q qs)"
    using Suc.IH by (intro serialize_step_pairs) simp_all
  then show ?case by simp
qed

lemma table_zip:
  "length bs = length ls \<Longrightarrow> map (\<lambda>i. (bs ! i, ls ! i)) [0..<length bs] = zip bs ls"
  by (rule nth_equalityI) auto

lemma merged_pairs_case:
  "(case ps of [] \<Rightarrow> [] | q # qs \<Rightarrow> merge_from q qs) = out \<Longrightarrow>
   (if out = [] then [(0, dbl_max)] else out) = merged_pairs ps"
  by (cases ps) (auto simp add: merge_from_nonempty)

lemma merged_pairs_no_adjacent_zeros: "\<not> adjacent_zeros (map fst (merged_pairs ps))"
  by (cases ps) (simp_all add: merge_from_no_adjacent_zeros)

lemma SerializeToProto_pairs:
  assumes "length (buckets_m h) = length (bucket_limits_m h)"
    and "bucket p0 = []" "bucket_limit p0 = []"
  shows "bucket (SerializeToProto h p0) = map fst (merged_pairs (zip (buckets_m h) (bucket_limits_m h)))"
    and "bucket_limit (SerializeToProto h p0) = map snd (merged_pairs (zip (buckets_m h) (bucket_limits_m h)))"
proof -
  let ?p1 = "p0\<lparr>p_max := max_m h, p_min := min_m h, p_num := num_m h,
                 p_sum := sum_m h, p_sum_squares := sum_squares_m h\<rparr>"
  let ?p = "foldl (serialize_step h) ?p1 [0..<length (buckets_m h)]"
  let ?ps = "zip (buckets_m h) (bucket_limits_m h)"
  let ?out = "case ?ps of [] \<Rightarrow> [] | q # qs \<Rightarrow> merge_from q qs"
  have tz: "map (\<lambda>i. (buckets_m h ! i, bucket_limits_m h ! i)) [0..<length (buckets_m h)] = ?ps"
    using assms(1) by (rule table_zip)
  have p1: "bucket ?p1 = []" "bucket_limit ?p1 = []" using assms(2,3) by simp_all
  have o: "bucket ?p = map fst ?out \<and> bucket_limit ?p = map snd ?out"
    using serialize_loop_pairs[OF p1, of h "length (buckets_m h)"] unfolding tz .
  have m: "(if ?out = [] then [(0, dbl_max)] else ?out) = merged_pairs ?ps"
    by (rule merged_pairs_case) (rule refl)
  have r: "SerializeToProto h p0 =
             (if length (bucket ?p) = 0
              then ?p\<lparr>bucket := bucket ?p @ [0], bucket_limit := bucket_limit ?p @ [dbl_max]\<rparr>
              else ?p)"
    unfolding SerializeToProto_def Let_def ..
  show "bucket (SerializeToProto h p0) = map fst (merged_pairs ?ps)"
    unfolding r m[symmetric] using o by (cases "?out = []") simp_all
  show "bucket_limit (SerializeToProto h p0) = map snd (merged_pairs ?ps)"
    unfolding r m[symmetric] using o by (cases "?out = []") simp_all
qed

text \<open>
  The merging rule. \<^verbatim>\<open>SerializeToProto\<close>, on a new message, visits the buckets in the
  order of their indices and exports exactly the pairs that the merging rule gives: one
  (count, edge) pair per bucket, except that a bucket with count zero right after an
  emitted pair with count zero emits nothing and moves that pair's edge to its own. The
  two repeated fields have the same length, and no two neighbouring exported counts are
  both zero. The order is that of the indices, whatever the edges are; on the default
  table it is not the ascending order of the edges (last section).
\<close>

theorem SerializeToProto_merges_zero_runs:
  assumes "length (buckets_m h) = length (bucket_limits_m h)"
  shows "pairs (SerializeToProto h HistogramProto_new)
           = merged_pairs (zip (buckets_m h) (bucket_limits_m h)) \<and>
         length (bucket (SerializeToProto h HistogramProto_new))
           = length (bucket_limit (SerializeToProto h HistogramProto_new)) \<and>
         \<not> adjacent_zeros (bucket (SerializeToProto h HistogramProto_new))"
proof -
  have e: "bucket HistogramProto_new = []" "bucket_limit HistogramProto_new = []"
    by (simp_all add: HistogramProto_new_def)
  note bl = SerializeToProto_pairs[OF assms e]
  show ?thesis
    unfolding pairs_def bl by (simp add: zip_map_fst_snd merged_pairs_no_adjacent_zeros)
qed


theorem SerializeToProto_merges_zero_runs_witness:
  "pairs (SerializeToProto
      \<lparr>min_m = 3, max_m = 7, num_m = 4, sum_m = 16, sum_squares_m = 76,
       bucket_limits_m = [1, 2, 3, 4, 5, 6, 7, 8], buckets_m = [0, 0, 3, 0, 0, 0, 1, 0]\<rparr>
      HistogramProto_new)
   = [(0, 2), (3, 3), (0, 6), (1, 7), (0, 8)]"
  using SerializeToProto_merges_zero_runs
    [of "\<lparr>min_m = 3, max_m = 7, num_m = 4, sum_m = 16, sum_squares_m = 76,
       bucket_limits_m = [1, 2, 3, 4, 5, 6, 7, 8], buckets_m = [0, 0, 3, 0, 0, 0, 1, 0]\<rparr>"]
  by simp

section \<open>\<^verbatim>\<open>SummaryMerge\<close>\<close>

lemma merge_values_append:
  "merge_values (a @ b) st =
     (case merge_values a st of Inl e \<Rightarrow> Inl e | Inr st' \<Rightarrow> merge_values b st')"
proof (induction a arbitrary: st)
  case Nil
  then show ?case by (cases st) simp
next
  case (Cons v a)
  then show ?case by (cases st) simp
qed

lemma merge_values_distinct:
  "distinct (nonempty_tags vals) \<Longrightarrow> set (nonempty_tags vals) \<inter> tags = {} \<Longrightarrow>
   merge_values vals (tags, summary) = Inr (tags \<union> set (nonempty_tags vals), summary @ vals)"
proof (induction vals arbitrary: tags summary)
  case Nil
  then show ?case by (simp add: nonempty_tags_def)
next
  case (Cons v vals)
  show ?case
  proof (cases "tag v = []")
    case True
    then show ?thesis using Cons.prems Cons.IH[of tags "summary @ [v]"]
      by (simp add: nonempty_tags_def)
  next
    case False
    have "merge_values vals (insert (tag v) tags, summary @ [v])
            = Inr (insert (tag v) tags \<union> set (nonempty_tags vals), (summary @ [v]) @ vals)"
      using Cons.prems False by (intro Cons.IH) (auto simp add: nonempty_tags_def)
    then show ?thesis using Cons.prems False by (auto simp add: nonempty_tags_def)
  qed
qed

lemma merge_values_duplicate:
  "\<not> (distinct (nonempty_tags vals) \<and> set (nonempty_tags vals) \<inter> tags = {}) \<Longrightarrow>
   \<exists>t. merge_values vals (tags, summary) = Inl (DuplicateTag t) \<and> t \<noteq> [] \<and>
       t \<in> set (map tag vals) \<and> (t \<in> tags \<or> 2 \<le> count_list (map tag vals) t)"
proof (induction vals arbitrary: tags summary)
  case Nil
  then show ?case by (simp add: nonempty_tags_def)
next
  case (Cons v vals)
  show ?case
  proof (cases "tag v \<noteq> [] \<and> tag v \<in> tags")
    case True
    then show ?thesis by auto
  next
    case False
    let ?tags = "if tag v \<noteq> [] then insert (tag v) tags else tags"
    have "distinct (nonempty_tags (v # vals)) \<and> set (nonempty_tags (v # vals)) \<inter> tags = {}"
      if d: "distinct (nonempty_tags vals)" and e: "set (nonempty_tags vals) \<inter> ?tags = {}"
    proof (cases "tag v = []")
      case True
      then show ?thesis using d e by (simp add: nonempty_tags_def)
    next
      case nonempty: False
      then have "tag v \<notin> tags" using False by simp
      moreover have "tag v \<notin> set (nonempty_tags vals)" using e nonempty by auto
      moreover have "set (nonempty_tags vals) \<inter> tags = {}" using e nonempty by auto
      ultimately show ?thesis using d nonempty by (simp add: nonempty_tags_def)
    qed
    then have "\<not> (distinct (nonempty_tags vals) \<and> set (nonempty_tags vals) \<inter> ?tags = {})"
      using Cons.prems by blast
    then obtain t where t: "merge_values vals (?tags, summary @ [v]) = Inl (DuplicateTag t)"
        "t \<noteq> []" "t \<in> set (map tag vals)" "t \<in> ?tags \<or> 2 \<le> count_list (map tag vals) t"
      using Cons.IH[of ?tags "summary @ [v]"] by blast
    have "1 \<le> count_list (map tag vals) t"
      using t(3) by (metis One_nat_def Suc_leI count_list_0_iff not_gr_zero)
    then have "t \<in> tags \<or> 2 \<le> count_list (map tag (v # vals)) t"
      using t(4) by (auto split: if_splits)
    moreover have "merge_values (v # vals) (tags, summary) = Inl (DuplicateTag t)"
      using False t(1) by auto
    ultimately show ?thesis using t(2,3) by auto
  qed
qed

lemma merge_inputs_parsed:
  "parsed_values parse inputs = Some vals \<Longrightarrow>
   merge_inputs parse inputs st = merge_values vals st"
proof (induction parse inputs st arbitrary: vals rule: merge_inputs.induct)
  case (1 parse st)
  then show ?case by (cases st) simp
next
  case (2 parse rest st)
  then show ?case by simp
next
  case (3 parse input_data rest st)
  then obtain s rv where s: "parse input_data = Some s" "parsed_values parse rest = Some rv"
      "vals = s @ rv"
    by (auto split: option.splits)
  show ?case
  proof (cases "merge_values s st")
    case (Inl e)
    then show ?thesis using s by (simp add: merge_values_append)
  next
    case (Inr st')
    then show ?thesis using s "3.IH"[OF s(1) Inr s(2)] by (simp add: merge_values_append)
  qed
qed

lemma merge_inputs_unparsed:
  "parsed_values parse inputs = None \<Longrightarrow> isl (merge_inputs parse inputs st)"
proof (induction parse inputs st rule: merge_inputs.induct)
  case (1 parse st)
  then show ?case by simp
next
  case (2 parse rest st)
  then show ?case by simp
next
  case (3 parse input_data rest st)
  then show ?case by (auto split: option.splits sum.splits)
qed

lemma parsed_values_None_iff:
  "parsed_values parse inputs = None \<longleftrightarrow>
     OtherTensor \<in> set inputs \<or> (\<exists>d. StringTensor d \<in> set inputs \<and> parse d = None)"
  by (induction parse inputs rule: parsed_values.induct) (auto split: option.splits)

text \<open>
  Claim C5. \<^verbatim>\<open>SummaryMerge\<close> fails when an input is not a string tensor or does not
  parse. When every input parses, it fails with the duplicate-tag error, naming a
  non-empty tag that at least two of the value entries carry, as soon as two entries of
  the inputs share a non-empty tag; otherwise it succeeds. Whenever it succeeds, the
  output is the serialised concatenation of the inputs' value entries, inputs in the
  order listed and entries in their order within each input.
\<close>

theorem SummaryMerge_fails_or_concatenates:
  "(OtherTensor \<in> set inputs \<or> (\<exists>d. StringTensor d \<in> set inputs \<and> parse d = None)
      \<longrightarrow> isl (SummaryMergeOp_Compute parse serialize inputs)) \<and>
   (\<forall>vals. parsed_values parse inputs = Some vals \<longrightarrow>
      (\<not> distinct (nonempty_tags vals) \<longrightarrow>
         (\<exists>t. SummaryMergeOp_Compute parse serialize inputs = Inl (DuplicateTag t) \<and>
              t \<noteq> [] \<and> 2 \<le> count_list (map tag vals) t)) \<and>
      (distinct (nonempty_tags vals) \<longrightarrow>
         SummaryMergeOp_Compute parse serialize inputs = Inr (serialize vals))) \<and>
   (\<forall>out. SummaryMergeOp_Compute parse serialize inputs = Inr out \<longrightarrow>
      (\<exists>vals. parsed_values parse inputs = Some vals \<and> distinct (nonempty_tags vals) \<and>
             out = serialize vals))"
proof (cases "parsed_values parse inputs")
  case None
  then have "isl (merge_inputs parse inputs ({}, []))" by (rule merge_inputs_unparsed)
  then have "isl (SummaryMergeOp_Compute parse serialize inputs)"
    by (auto simp add: SummaryMergeOp_Compute_def split: sum.splits)
  then show ?thesis using None by (auto simp add: isl_def)
next
  case (Some vals)
  have parsed: "\<not> (OtherTensor \<in> set inputs \<or> (\<exists>d. StringTensor d \<in> set inputs \<and> parse d = None))"
    using Some parsed_values_None_iff[of parse inputs] by simp
  have mi: "merge_inputs parse inputs ({}, []) = merge_values vals ({}, [])"
    using Some by (rule merge_inputs_parsed)
  show ?thesis
  proof (cases "distinct (nonempty_tags vals)")
    case True
    have "merge_values vals ({}, []) = Inr ({} \<union> set (nonempty_tags vals), [] @ vals)"
      using True by (intro merge_values_distinct) simp_all
    then have "SummaryMergeOp_Compute parse serialize inputs = Inr (serialize vals)"
      using mi by (simp add: SummaryMergeOp_Compute_def)
    then show ?thesis using Some True parsed by auto
  next
    case False
    then obtain t where t: "merge_values vals ({}, []) = Inl (DuplicateTag t)" "t \<noteq> []"
        "2 \<le> count_list (map tag vals) t"
      using merge_values_duplicate[of vals "{}" "[]"] by auto
    then have "SummaryMergeOp_Compute parse serialize inputs = Inl (DuplicateTag t)"
      using mi by (simp add: SummaryMergeOp_Compute_def)
    then show ?thesis using Some False parsed t by auto
  qed
qed

theorem SummaryMerge_fails_or_concatenates_witness:
  "SummaryMergeOp_Compute
     (\<lambda>blob. if blob = ''A'' then Some [\<lparr>tag = ''a'', content = simple_value 1\<rparr>]
             else if blob = ''B'' then Some [\<lparr>tag = ''b'', content = simple_value 2\<rparr>]
             else None)
     (\<lambda>summary. concat (map tag summary)) [StringTensor ''A'', StringTensor ''A'']
     = Inl (DuplicateTag ''a'') \<and>
   SummaryMergeOp_Compute
     (\<lambda>blob. if blob = ''A'' then Some [\<lparr>tag = ''a'', content = simple_value 1\<rparr>]
             else if blob = ''B'' then Some [\<lparr>tag = ''b'', content = simple_value 2\<rparr>]
             else None)
     (\<lambda>summary. concat (map tag summary)) [StringTensor ''A'', StringTensor ''B'']
     = Inr ''ab'' \<and>
   isl (SummaryMergeOp_Compute
     (\<lambda>blob. if blob = ''A'' then Some [\<lparr>tag = ''a'', content = simple_value 1\<rparr>]
             else if blob = ''B'' then Some [\<lparr>tag = ''b'', content = simple_value 2\<rparr>]
             else None)
     (\<lambda>summary. concat (map tag summary)) [StringTensor ''A'', StringTensor ''X''])"
proof -
  let ?a = "\<lparr>tag = ''a'', content = simple_value 1\<rparr>"
  let ?b = "\<lparr>tag = ''b'', content = simple_value 2\<rparr>"
  let ?P = "\<lambda>blob. if blob = ''A'' then Some [?a] else if blob = ''B'' then Some [?b] else None"
  let ?S = "\<lambda>summary. concat (map tag summary)"
  note aa = SummaryMerge_fails_or_concatenates
              [of "[StringTensor ''A'', StringTensor ''A'']" ?P ?S]
  note ab = SummaryMerge_fails_or_concatenates
              [of "[StringTensor ''A'', StringTensor ''B'']" ?P ?S]
  note ax = SummaryMerge_fails_or_concatenates
              [of "[StringTensor ''A'', StringTensor ''X'']" ?P ?S]
  have p_aa: "parsed_values ?P [StringTensor ''A'', StringTensor ''A''] = Some [?a, ?a]"
    by simp
  have p_ab: "parsed_values ?P [StringTensor ''A'', StringTensor ''B''] = Some [?a, ?b]"
    by simp
  have "\<not> distinct (nonempty_tags [?a, ?a])" by (simp add: nonempty_tags_def)
  with aa[THEN conjunct2, THEN conjunct1, rule_format, OF p_aa, THEN conjunct1]
  obtain t where t: "SummaryMergeOp_Compute ?P ?S [StringTensor ''A'', StringTensor ''A'']
                       = Inl (DuplicateTag t)"
      "2 \<le> count_list (map tag [?a, ?a]) t"
    by blast
  have "t = ''a''" using t(2) by (simp split: if_splits)
  then have 1: "SummaryMergeOp_Compute ?P ?S [StringTensor ''A'', StringTensor ''A'']
                  = Inl (DuplicateTag ''a'')"
    using t(1) by simp
  have "distinct (nonempty_tags [?a, ?b])" by (simp add: nonempty_tags_def)
  with ab[THEN conjunct2, THEN conjunct1, rule_format, OF p_ab, THEN conjunct2]
  have 2: "SummaryMergeOp_Compute ?P ?S [StringTensor ''A'', StringTensor ''B''] = Inr ''ab''"
    by simp
  have "?P ''X'' = None" by simp
  then have "\<exists>d. StringTensor d \<in> set [StringTensor ''A'', StringTensor ''X''] \<and> ?P d = None"
    by (intro exI[of _ "''X''"]) simp
  with ax[THEN conjunct1]
  have 3: "isl (SummaryMergeOp_Compute ?P ?S [StringTensor ''A'', StringTensor ''X''])"
    by blast
  from 1 2 3 show ?thesis by (intro conjI)
qed

section \<open>The constructor of \<^verbatim>\<open>DataLoader\<close>\<close>

lemma stripe_snoc:
  "stripe (files @ [f]) W r =
     stripe files W r @ (if length files mod W = r then [f] else [])"
proof -
  have "map (\<lambda>i. (files @ [f]) ! i) (filter (\<lambda>i. i mod W = r) [0..<length files])
          = map (\<lambda>i. files ! i) (filter (\<lambda>i. i mod W = r) [0..<length files])"
    by (rule map_cong) (auto simp add: nth_append)
  then show ?thesis by (simp add: stripe_def)
qed

lemma partition_foldl:
  "foldl (partition_step r W) (0, []) files = (length files, stripe files W r)"
proof (induction files rule: rev_induct)
  case Nil
  then show ?case by (simp add: stripe_def)
next
  case (snoc f files)
  then show ?case by (simp add: partition_step_def stripe_snoc)
qed

lemma stripe_one: "stripe files (Suc 0) 0 = files"
  by (simp add: stripe_def map_nth)

lemma DataLoader_new_ok:
  assumes "1 \<le> W" "r < W"
  shows "\<exists>d. DataLoader_new m files P r W = Inr d \<and> data_files d = stripe files W r"
proof (cases "1 < W")
  case True
  then show ?thesis using assms by (simp add: DataLoader_new_def Let_def partition_foldl)
next
  case False
  then have "W = Suc 0" "r = 0" using assms by simp_all
  then show ?thesis by (simp add: DataLoader_new_def Let_def stripe_one)
qed

lemma stripe_mset_sum:
  assumes "1 \<le> W"
  shows "(\<Sum>r<W. mset (stripe files W r)) = mset files"
proof (induction files rule: rev_induct)
  case Nil
  then show ?case by (simp add: stripe_def)
next
  case (snoc f files)
  have d: "(\<Sum>r<W. if length files mod W = r then {#f#} else {#}) = {#f#}"
    using assms by (simp add: sum.delta')
  have "(\<Sum>r<W. mset (stripe (files @ [f]) W r))
          = (\<Sum>r<W. mset (stripe files W r) + (if length files mod W = r then {#f#} else {#}))"
    by (rule sum.cong) (simp_all add: stripe_snoc)
  also have "\<dots> = (\<Sum>r<W. mset (stripe files W r))
                    + (\<Sum>r<W. if length files mod W = r then {#f#} else {#})"
    by (rule sum.distrib)
  finally show ?case using snoc d by simp
qed

lemma set_stripe:
  "set (stripe files W r) = (\<lambda>i. files ! i) ` {i. i < length files \<and> i mod W = r}"
  by (auto simp add: stripe_def)

lemma stripe_union:
  assumes "1 \<le> W"
  shows "(\<Union>r<W. set (stripe files W r)) = set files"
proof
  show "(\<Union>r<W. set (stripe files W r)) \<subseteq> set files"
    by (auto simp add: set_stripe)
  show "set files \<subseteq> (\<Union>r<W. set (stripe files W r))"
  proof
    fix x assume "x \<in> set files"
    then obtain i where i: "i < length files" "files ! i = x" by (auto simp add: in_set_conv_nth)
    have "i mod W < W" using assms by simp
    moreover have "x \<in> set (stripe files W (i mod W))" using i by (auto simp add: set_stripe)
    ultimately show "x \<in> (\<Union>r<W. set (stripe files W r))" by blast
  qed
qed

lemma stripe_disjoint:
  assumes "distinct files" "r \<noteq> r'"
  shows "set (stripe files W r) \<inter> set (stripe files W r') = {}"
proof (rule ccontr)
  assume "set (stripe files W r) \<inter> set (stripe files W r') \<noteq> {}"
  then obtain i j where "i < length files" "i mod W = r" "j < length files" "j mod W = r'"
      "files ! i = files ! j"
    by (auto simp add: set_stripe)
  then show False using assms by (auto simp add: nth_eq_iff_index_eq)
qed

text \<open>
  Claim C6. For a file list and a world size \<open>W \<ge> 1\<close>, the constructor called with a
  rank \<open>r < W\<close> succeeds and keeps exactly the files at the positions \<open>i\<close> with
  \<open>i mod W = r\<close>. Over the ranks \<open>0, \<dots>, W - 1\<close> these lists together hold every
  file of the list exactly as often as the list does (nothing left out, nothing twice),
  their union is the list's set of files, and for a list without repetition (a directory
  listing) the lists of two different ranks share no file.
\<close>

theorem stripes_partition_file_list:
  assumes "1 \<le> W"
  shows "(\<forall>r<W. \<exists>d. (DataLoader_new m files P r W :: loader_error + 'd DataLoader) = Inr d \<and>
                     data_files d = stripe files W r) \<and>
         (\<Sum>r<W. mset (stripe files W r)) = mset files \<and>
         (\<Union>r<W. set (stripe files W r)) = set files \<and>
         (distinct files \<longrightarrow>
            (\<forall>r<W. \<forall>r'<W. r \<noteq> r' \<longrightarrow>
               set (stripe files W r) \<inter> set (stripe files W r') = {}))"
  using assms DataLoader_new_ok[OF assms] stripe_mset_sum[OF assms] stripe_union[OF assms]
    stripe_disjoint
  by blast

theorem stripes_partition_file_list_witness:
  "(\<exists>d. (DataLoader_new [] [''a'', ''b'', ''c'', ''d'', ''e''] 2 0 2
           :: loader_error + unit DataLoader) = Inr d \<and> data_files d = [''a'', ''c'', ''e'']) \<and>
   (\<exists>d. (DataLoader_new [] [''a'', ''b'', ''c'', ''d'', ''e''] 2 1 2
           :: loader_error + unit DataLoader) = Inr d \<and> data_files d = [''b'', ''d''])"
proof -
  note t = stripes_partition_file_list
             [of 2 "[]" "[''a'', ''b'', ''c'', ''d'', ''e'']" 2, where ?'d = unit,
              THEN conjunct1, rule_format]
  have s0: "stripe [''a'', ''b'', ''c'', ''d'', ''e''] 2 0 = [''a'', ''c'', ''e'']"
    by (simp add: stripe_def upt_rec)
  have s1: "stripe [''a'', ''b'', ''c'', ''d'', ''e''] 2 1 = [''b'', ''d'']"
    by (simp add: stripe_def upt_rec)
  show ?thesis using t[of 0] t[of 1] s0 s1 by simp
qed

text \<open>
  The rank is only checked under \<^verbatim>\<open>if (world_size > 1)\<close>: with one worker, rank \<open>1\<close>
  is accepted.
\<close>

theorem DataLoader_new_rank_one_of_one:
  "(1::nat) \<ge> 1 \<and>
   \<not> isl (DataLoader_new [] [''a.pb''] 2 1 1 :: loader_error + unit DataLoader)"
  by (simp add: DataLoader_new_def)

text \<open>
  Claim C7, amended. The constructor fails, with the \<^verbatim>\<open>world_rank must be 0~\<close> error,
  when \<open>world_size > 1\<close> and \<open>world_rank \<ge> world_size\<close>, and in no other case.
\<close>

theorem DataLoader_new_fails_iff:
  "(1 < world_size \<and> world_size \<le> world_rank \<longrightarrow>
      DataLoader_new m files P world_rank world_size
        = Inl (WorldRankOutOfRange (world_size - 1))) \<and>
   (\<not> (1 < world_size \<and> world_size \<le> world_rank) \<longrightarrow>
      \<not> isl (DataLoader_new m files P world_rank world_size))"
  by (simp add: DataLoader_new_def Let_def)

theorem DataLoader_new_fails_iff_witness:
  "(DataLoader_new [] [''a.pb''] 2 2 2 :: loader_error + unit DataLoader)
     = Inl (WorldRankOutOfRange 1) \<and>
   \<not> isl (DataLoader_new [] [''a.pb''] 2 1 2 :: loader_error + unit DataLoader)"
  using DataLoader_new_fails_iff [of 2 2 "[]" "[''a.pb'']" 2, where ?'a = unit]
    DataLoader_new_fails_iff [of 2 1 "[]" "[''a.pb'']" 2, where ?'a = unit]
  by simp

section \<open>\<^verbatim>\<open>MoveToNextDataSet\<close> and the scheduled task\<close>

lemma unat_NumShards:
  "length (data_files s) < 2 ^ 64 \<Longrightarrow> unat (NumShards s) = length (data_files s)"
  by (simp add: NumShards_def unat_of_nat)

lemma unat_succ_mod:
  fixes a S :: size_t
  assumes "unat a < unat S"
  shows "unat ((a + 1) mod S) = (unat a + 1) mod unat S"
proof -
  have "unat S < 2 ^ 64" using unsigned_less[of S, where ?'a = nat] by simp
  then have "unat a + unat (1::size_t) < 2 ^ LENGTH(64)" using assms by simp
  then have "unat (a + 1) = unat a + 1" by (simp add: unat_add_lem[THEN iffD1])
  then show ?thesis by (simp add: unat_mod)
qed

lemma unat_add_pred:
  fixes a P :: size_t
  assumes "1 \<le> unat a + unat P" "unat a + unat P \<le> 2 ^ 64"
  shows "unat (a + P - 1) = unat a + unat P - 1"
proof -
  have "a + P = of_nat (unat a + unat P)" by simp
  then have "a + P - 1 = of_nat (unat a + unat P - 1)" using assms(1) by (simp add: of_nat_diff)
  then have "unat (a + P - 1) = (unat a + unat P - 1) mod 2 ^ 64" by (simp add: unat_of_nat)
  then show ?thesis using assms by simp
qed

lemma MoveToNextDataSet_Inr:
  assumes "NumShards s \<noteq> 0"
  shows "MoveToNextDataSet s =
     Inr (CurrentDataSet
            (s\<lparr>active_file_index := (active_file_index s + 1) mod NumShards s,
               scheduled := scheduled s @
                 [(((active_file_index s + 1) mod NumShards s + max_num_files_preload s - 1)
                     mod NumShards s, True, active_file_index s)]\<rparr>),
          s\<lparr>active_file_index := (active_file_index s + 1) mod NumShards s,
            scheduled := scheduled s @
              [(((active_file_index s + 1) mod NumShards s + max_num_files_preload s - 1)
                  mod NumShards s, True, active_file_index s)]\<rparr>)"
  using assms
  by (simp add: MoveToNextDataSet_def Let_def LoadAndRemoveInternalAsync_def NumShards_def)

text \<open>
  Claim C8, amended. On a loader with at least one shard, \<^verbatim>\<open>MoveToNextDataSet\<close> returns
  normally; it sets the active index to \<open>(old + 1) mod S\<close>, schedules one task that loads
  index \<open>(new + P - 1) mod S\<close> and removes the old active index, leaves the buffer and
  the file list alone, and returns the buffer's data set at the new active index. The
  sums and the difference are those of \<^verbatim>\<open>size_t\<close>. Over the natural numbers the new
  index is \<open>(old + 1) mod S\<close> when the old one is a shard index, and the index to load is
  \<open>(new + P - 1) mod S\<close> when \<open>1 \<le> new + P \<le> 2\<^sup>6\<^sup>4\<close>, that is, when nothing wraps.
\<close>

theorem MoveToNextDataSet_bookkeeping:
  assumes "NumShards s \<noteq> 0"
  shows "\<exists>s'. MoveToNextDataSet s = Inr (CurrentDataSet s', s') \<and>
           active_file_index s' = (active_file_index s + 1) mod NumShards s \<and>
           scheduled s' = scheduled s @
             [((active_file_index s' + max_num_files_preload s - 1) mod NumShards s,
               True, active_file_index s)] \<and>
           CurrentDataSet s' =
             (case buffer s (active_file_index s') of None \<Rightarrow> None | Some p \<Rightarrow> p) \<and>
           buffer s' = buffer s \<and> data_files s' = data_files s \<and>
           max_num_files_preload s' = max_num_files_preload s \<and>
           (length (data_files s) < 2 ^ 64 \<and> unat (active_file_index s) < length (data_files s)
              \<longrightarrow> unat (active_file_index s')
                    = (unat (active_file_index s) + 1) mod length (data_files s)) \<and>
           (length (data_files s) < 2 ^ 64 \<and>
            1 \<le> unat (active_file_index s') + unat (max_num_files_preload s) \<and>
            unat (active_file_index s') + unat (max_num_files_preload s) \<le> 2 ^ 64
              \<longrightarrow> unat ((active_file_index s' + max_num_files_preload s - 1) mod NumShards s)
                    = (unat (active_file_index s') + unat (max_num_files_preload s) - 1)
                        mod length (data_files s))"
proof -
  let ?a = "(active_file_index s + 1) mod NumShards s"
  let ?i = "(?a + max_num_files_preload s - 1) mod NumShards s"
  let ?s = "s\<lparr>active_file_index := ?a,
               scheduled := scheduled s @ [(?i, True, active_file_index s)]\<rparr>"
  have m: "MoveToNextDataSet s = Inr (CurrentDataSet ?s, ?s)"
    using assms by (rule MoveToNextDataSet_Inr)
  have n1: "unat ?a = (unat (active_file_index s) + 1) mod length (data_files s)"
    if "length (data_files s) < 2 ^ 64" "unat (active_file_index s) < length (data_files s)"
    using that unat_succ_mod[of "active_file_index s" "NumShards s"] by (simp add: unat_NumShards)
  have n2: "unat ?i = (unat ?a + unat (max_num_files_preload s) - 1) mod length (data_files s)"
    if "length (data_files s) < 2 ^ 64" "1 \<le> unat ?a + unat (max_num_files_preload s)"
      "unat ?a + unat (max_num_files_preload s) \<le> 2 ^ 64"
    using that unat_add_pred[of ?a "max_num_files_preload s"]
    by (simp add: unat_mod unat_NumShards)
  show ?thesis
    apply (rule exI[of _ ?s])
    using m n1 n2 by (simp add: CurrentDataSet_def)
qed

lemma run_task_guard:
  assumes "data_files s \<noteq> []" "length (data_files s) < 2 ^ 64"
  shows "(index_to_load > (of_nat (length (data_files s)) :: size_t) - 1)
           \<longleftrightarrow> length (data_files s) \<le> unat index_to_load"
proof -
  let ?w = "of_nat (length (data_files s)) :: size_t"
  have u: "unat ?w = length (data_files s)" using assms(2) by (simp add: unat_of_nat)
  then have "?w \<noteq> 0" using assms(1) by (metis length_0_conv unat_0)
  then have "unat (?w - 1) = length (data_files s) - 1" using u by (simp add: unat_minus_one)
  moreover have "0 < length (data_files s)" using assms(1) by simp
  ultimately show ?thesis unfolding word_less_nat_alt by arith
qed

lemma scheduled_foldl:
  "foldl (\<lambda>s i. LoadAndRemoveInternalAsync s (f i) r j) s is =
     s\<lparr>scheduled := scheduled s @ map (\<lambda>i. (f i, r, j)) is\<rparr>"
  by (induction "is" arbitrary: s) (simp_all add: LoadAndRemoveInternalAsync_def)

text \<open>
  The tasks that exist. \<^verbatim>\<open>LoadAndRemoveInternalAsync\<close> has two callers. On a loader
  without files neither schedules a task (the preload loop runs \<open>min P 0\<close> times, and
  \<^verbatim>\<open>MoveToNextDataSet\<close> divides by the shard count first); on a loader with files every
  index they schedule is a shard index. The file list never changes after construction.
\<close>

lemma InitialPreLoadAsync_no_shard: "NumShards s = 0 \<Longrightarrow> InitialPreLoadAsync s = s"
  by (simp add: InitialPreLoadAsync_def)

lemma MoveToNextDataSet_no_shard: "NumShards s = 0 \<Longrightarrow> MoveToNextDataSet s = Inl DivisionByZero"
  by (simp add: MoveToNextDataSet_def)

lemma InitialPreLoadAsync_scheduled:
  assumes "length (data_files s) < 2 ^ 64"
  shows "\<exists>ts. scheduled (InitialPreLoadAsync s) = scheduled s @ ts \<and>
           data_files (InitialPreLoadAsync s) = data_files s \<and>
           buffer (InitialPreLoadAsync s) = buffer s \<and>
           (\<forall>t \<in> set ts. unat (fst t) < length (data_files s))"
proof -
  let ?n = "unat (min (max_num_files_preload s) (NumShards s))"
  let ?ts = "map (\<lambda>i. (of_nat i :: size_t, False, 0 :: size_t)) [0..<?n]"
  have e: "InitialPreLoadAsync s = s\<lparr>scheduled := scheduled s @ ?ts\<rparr>"
    unfolding InitialPreLoadAsync_def by (rule scheduled_foldl)
  have "?n \<le> unat (NumShards s)" by (simp add: word_le_nat_alt[symmetric])
  then have n: "?n \<le> length (data_files s)" using assms by (simp add: unat_NumShards)
  have "unat (of_nat i :: size_t) < length (data_files s)" if "i < ?n" for i
  proof -
    have "i < 2 ^ 64" using that n assms by simp
    then have "unat (of_nat i :: size_t) = i" by (simp add: unat_of_nat)
    then show ?thesis using that n by simp
  qed
  then have "\<forall>t \<in> set ?ts. unat (fst t) < length (data_files s)" by simp
  then show ?thesis unfolding e by (intro exI[of _ ?ts]) simp
qed

lemma MoveToNextDataSet_scheduled:
  assumes "NumShards s \<noteq> 0" "length (data_files s) < 2 ^ 64"
  shows "case MoveToNextDataSet s of
           Inl e \<Rightarrow> False
         | Inr (r, s') \<Rightarrow>
             (\<exists>t. scheduled s' = scheduled s @ [t] \<and> unat (fst t) < length (data_files s)) \<and>
             data_files s' = data_files s \<and> buffer s' = buffer s"
proof -
  let ?a = "(active_file_index s + 1) mod NumShards s"
  let ?i = "(?a + max_num_files_preload s - 1) mod NumShards s"
  have "0 < unat (NumShards s)" using assms(1) by (simp add: unat_gt_0)
  then have "unat ?i < unat (NumShards s)" by (simp add: unat_mod)
  then have "unat ?i < length (data_files s)" using assms(2) by (simp add: unat_NumShards)
  then show ?thesis unfolding MoveToNextDataSet_Inr[OF assms(1)] by auto
qed

text \<open>
  Claim C10. A task is scheduled only on a loader that has a file: without files
  \<^verbatim>\<open>InitialPreLoadAsync\<close> schedules nothing and \<^verbatim>\<open>MoveToNextDataSet\<close> does not get as
  far as scheduling. On a loader that has a file, the task with an index to load that is
  not below the number of files returns after logging the warning, and nothing else
  changes: the buffer is as before, so nothing is stored for the index to load and the
  requested removal does not happen. This is the task for every captured index; the two
  callers only ever capture a shard index (lemmas \<open>InitialPreLoadAsync_scheduled\<close>,
  \<open>MoveToNextDataSet_scheduled\<close>), so they never take this branch.
\<close>

theorem scheduled_task_out_of_range_is_noop:
  assumes "length (data_files s) < 2 ^ 64"
  shows "(data_files s = [] \<longrightarrow>
            scheduled (InitialPreLoadAsync s) = scheduled s \<and>
            MoveToNextDataSet s = Inl DivisionByZero) \<and>
         (data_files s \<noteq> [] \<and> length (data_files s) \<le> unat index_to_load \<longrightarrow>
            (\<exists>s'. run_task LoadFile s (index_to_load, need_remove, index_to_remove) = Inr s' \<and>
               buffer s' = buffer s \<and>
               warnings s' = warnings s @ [''Value of index_to_load is not in valid range''] \<and>
               data_files s' = data_files s \<and> scheduled s' = scheduled s \<and>
               active_file_index s' = active_file_index s))"
proof (intro conjI impI)
  assume "data_files s = []"
  then have n: "NumShards s = 0" by (simp add: NumShards_def)
  show "scheduled (InitialPreLoadAsync s) = scheduled s"
    using InitialPreLoadAsync_no_shard[OF n] by simp
  show "MoveToNextDataSet s = Inl DivisionByZero" using n by (rule MoveToNextDataSet_no_shard)
next
  assume a: "data_files s \<noteq> [] \<and> length (data_files s) \<le> unat index_to_load"
  then show "\<exists>s'. run_task LoadFile s (index_to_load, need_remove, index_to_remove) = Inr s' \<and>
               buffer s' = buffer s \<and>
               warnings s' = warnings s @ [''Value of index_to_load is not in valid range''] \<and>
               data_files s' = data_files s \<and> scheduled s' = scheduled s \<and>
               active_file_index s' = active_file_index s"
    using run_task_guard[of s index_to_load] assms by (simp add: run_task_def)
qed

lemma run_task_in_range:
  assumes "data_files s \<noteq> []" "length (data_files s) < 2 ^ 64"
    and "unat index_to_load < length (data_files s)"
  shows "\<exists>s'. run_task LoadFile s (index_to_load, need_remove, index_to_remove) = Inr s' \<and>
           buffer s' =
             (let b = (buffer s)(index_to_load \<mapsto> LoadFile (data_files s ! unat index_to_load))
              in if need_remove then b(index_to_remove := None) else b)"
  using run_task_guard[OF assms(1,2), of index_to_load] assms(3)
  by (auto simp add: run_task_def Let_def split: option.splits)

theorem MoveToNextDataSet_bookkeeping_witness:
  "\<exists>s'. MoveToNextDataSet
       \<lparr>input_tensor_names = [], input_to_feature_index_map = Map.empty,
        data_files = [''a'', ''b'', ''c''], max_num_files_preload = 2, active_file_index = 2,
        buffer = [0 \<mapsto> Some ()], scheduled = [], warnings = []\<rparr> = Inr (Some (), s') \<and>
     active_file_index s' = 0 \<and> scheduled s' = [(1, True, 2)]"
  using MoveToNextDataSet_bookkeeping
    [of "\<lparr>input_tensor_names = [], input_to_feature_index_map = Map.empty,
        data_files = [''a'', ''b'', ''c''], max_num_files_preload = 2, active_file_index = 2,
        buffer = [0 \<mapsto> Some ()], scheduled = [], warnings = []\<rparr>"]
  by (auto simp add: NumShards_def)

text \<open>
  With a preload count of \<open>0\<close> and the new active index \<open>0\<close>, \<^verbatim>\<open>0 + 0 - 1\<close> wraps to
  \<open>2\<^sup>6\<^sup>4 - 1\<close>: of three shards the task loads index \<open>0\<close>, where the formula read over
  the integers gives \<open>2\<close>.
\<close>

theorem MoveToNextDataSet_zero_preload_wraps:
  "\<exists>r s'. MoveToNextDataSet
       \<lparr>input_tensor_names = [], input_to_feature_index_map = Map.empty,
        data_files = [''a'', ''b'', ''c''], max_num_files_preload = 0, active_file_index = 2,
        buffer = [0 \<mapsto> Some ()], scheduled = [], warnings = []\<rparr> = Inr (r, s') \<and>
     scheduled s' = [(0, True, 2)] \<and>
     (uint (active_file_index s') + uint (max_num_files_preload s') - 1)
        mod int (length (data_files s')) = 2"
  by (simp add: MoveToNextDataSet_def NumShards_def LoadAndRemoveInternalAsync_def Let_def)

theorem scheduled_task_out_of_range_is_noop_witness:
  "(\<exists>s'. run_task (\<lambda>path. None)
       \<lparr>input_tensor_names = [], input_to_feature_index_map = Map.empty,
        data_files = [''a'', ''b'', ''c''], max_num_files_preload = 2, active_file_index = 2,
        buffer = [0 \<mapsto> Some ()], scheduled = [], warnings = []\<rparr> (5, True, 0) = Inr s' \<and>
     buffer s' = [0 \<mapsto> Some ()] \<and>
     warnings s' = [''Value of index_to_load is not in valid range'']) \<and>
   MoveToNextDataSet
       \<lparr>input_tensor_names = [], input_to_feature_index_map = Map.empty,
        data_files = [], max_num_files_preload = 2, active_file_index = 0,
        buffer = [0 \<mapsto> Some ()], scheduled = [], warnings = []\<rparr> = Inl DivisionByZero"
  using scheduled_task_out_of_range_is_noop
    [of "\<lparr>input_tensor_names = [], input_to_feature_index_map = Map.empty,
        data_files = [''a'', ''b'', ''c''], max_num_files_preload = 2, active_file_index = 2,
        buffer = [0 \<mapsto> Some ()], scheduled = [], warnings = []\<rparr>" 5 "\<lambda>path. None" True 0]
    scheduled_task_out_of_range_is_noop
    [of "\<lparr>input_tensor_names = [], input_to_feature_index_map = Map.empty,
        data_files = [], max_num_files_preload = 2, active_file_index = 0,
        buffer = [0 \<mapsto> Some ()], scheduled = [], warnings = []\<rparr>"]
  by auto

text \<open>
  The guard is \<^verbatim>\<open>index_to_load > data_files_.size() - 1\<close>. With no file at all
  \<^verbatim>\<open>size() - 1\<close> would wrap to \<open>2\<^sup>6\<^sup>4 - 1\<close> and the body would go on to
  \<^verbatim>\<open>data_files_[index_to_load]\<close>; no task exists on such a loader, so the body is
  never run there.
\<close>

lemma run_task_no_files_not_guarded:
  "run_task (\<lambda>path. None)
       \<lparr>input_tensor_names = [], input_to_feature_index_map = Map.empty,
        data_files = [], max_num_files_preload = 2, active_file_index = 0,
        buffer = [0 \<mapsto> Some ()], scheduled = [], warnings = []\<rparr> (0, False, 0) = Inl (FileOutOfRange 0 0)"
  by (simp add: run_task_def)

section \<open>The counters\<close>

lemma sum_list_increment:
  "i < length xs \<Longrightarrow> sum_list (xs[i := xs ! i + c]) = sum_list xs + (c::real)"
proof (induction xs arbitrary: i)
  case Nil
  then show ?case by simp
next
  case (Cons x xs)
  then show ?case by (cases i) simp_all
qed

lemma Add_counts:
  assumes "Add h val = Inr h'"
  shows "num_m h' = num_m h + 1" and "sum_list (buckets_m h') = sum_list (buckets_m h) + 1"
    and "length (buckets_m h') = length (buckets_m h)"
    and "bucket_limits_m h' = bucket_limits_m h"
proof -
  have lt: "upper_bound (bucket_limits_m h) val < length (buckets_m h)"
    using assms Add_Inl[of h val] by (cases "upper_bound (bucket_limits_m h) val < length (buckets_m h)") auto
  note eq = Add_Inr[OF lt]
  show "num_m h' = num_m h + 1" using assms eq by auto
  show "sum_list (buckets_m h') = sum_list (buckets_m h) + 1"
    using assms eq sum_list_increment[OF lt, of 1] by auto
  show "length (buckets_m h') = length (buckets_m h)" using assms eq by auto
  show "bucket_limits_m h' = bucket_limits_m h" using assms eq by auto
qed

lemma AddAll_counts:
  "AddAll h vs = Inr h' \<Longrightarrow>
   num_m h' = num_m h + real (length vs) \<and>
   sum_list (buckets_m h') = sum_list (buckets_m h) + real (length vs) \<and>
   length (buckets_m h') = length (buckets_m h) \<and>
   bucket_limits_m h' = bucket_limits_m h"
proof (induction vs arbitrary: h)
  case Nil
  then show ?case by simp
next
  case (Cons v vs)
  then obtain h1 where h1: "Add h v = Inr h1" "AddAll h1 vs = Inr h'"
    by (auto split: sum.splits)
  show ?case using Cons.IH[OF h1(2)] Add_counts[OF h1(1)] by simp
qed

lemma AddAll_in_range:
  "\<forall>v \<in> set vs. upper_bound (bucket_limits_m h) v < length (buckets_m h) \<Longrightarrow>
   \<exists>h'. AddAll h vs = Inr h'"
proof (induction vs arbitrary: h)
  case Nil
  then show ?case by simp
next
  case (Cons v vs)
  have lt: "upper_bound (bucket_limits_m h) v < length (buckets_m h)" using Cons.prems by simp
  then obtain h1 where h1: "Add h v = Inr h1" using Add_Inr[OF lt] by blast
  have "\<forall>v \<in> set vs. upper_bound (bucket_limits_m h1) v < length (buckets_m h1)"
    using Cons.prems Add_counts(3,4)[OF h1] by simp
  then obtain h' where "AddAll h1 vs = Inr h'" using Cons.IH by blast
  then show ?case using h1 by simp
qed

lemma merged_pairs_sum: "sum_list (map fst (merged_pairs ps)) = sum_list (map fst ps)"
  by (cases ps) (simp_all add: merge_from_sum)

text \<open>
  As long as every \<^verbatim>\<open>Add\<close> finds its bucket index below the size of the table, the
  invariants of the counters hold: \<^verbatim>\<open>num_\<close> is the number of calls, the bucket counts
  and the exported counts both sum to it, and the two vectors keep their common length.
\<close>

lemma Histogram_counts_in_range:
  assumes "\<forall>v \<in> set vs. upper_bound limits v < length limits"
  shows "\<exists>h. AddAll (Histogram_limits limits) vs = Inr h \<and>
           num_m h = real (length vs) \<and>
           sum_list (buckets_m h) = num_m h \<and>
           sum_list (bucket (SerializeToProto h HistogramProto_new)) = num_m h \<and>
           length (buckets_m h) = length (bucket_limits_m h)"
proof -
  let ?h0 = "Histogram_limits limits"
  have "\<forall>v \<in> set vs. upper_bound (bucket_limits_m ?h0) v < length (buckets_m ?h0)"
    using assms by (simp add: Histogram_limits_def)
  then obtain h where h: "AddAll ?h0 vs = Inr h" using AddAll_in_range by blast
  note c = AddAll_counts[OF h]
  have n: "num_m h = real (length vs)" using c by (simp add: Histogram_limits_def)
  have z: "sum_list (replicate n (0::real)) = 0" for n by (induction n) simp_all
  have s: "sum_list (buckets_m h) = real (length vs)" using c z by (simp add: Histogram_limits_def)
  have l: "length (buckets_m h) = length (bucket_limits_m h)"
    using c by (simp add: Histogram_limits_def)
  have "bucket (SerializeToProto h HistogramProto_new)
          = map fst (merged_pairs (zip (buckets_m h) (bucket_limits_m h)))"
    using l by (intro SerializeToProto_pairs(1)) (simp_all add: HistogramProto_new_def)
  then have "sum_list (bucket (SerializeToProto h HistogramProto_new)) = sum_list (buckets_m h)"
    using l by (simp add: merged_pairs_sum)
  then show ?thesis using h n s l by simp
qed

lemma Histogram_counts_example:
  "\<exists>h. AddAll (Histogram_limits [0, 1, 2]) [1, 0.5, -1] = Inr h \<and> num_m h = 3 \<and>
       sum_list (buckets_m h) = 3"
  using Histogram_counts_in_range[of "[1, 0.5, -1]" "[0, 1, 2]"]
  by (auto simp add: upper_bound_sorted)

section \<open>The default table and the default histogram\<close>

text \<open>
  The first loop ends: from \<^verbatim>\<open>1e-12\<close> it pushes the \<open>774\<close> doubles of
  \<open>grown_doubles\<close> and returns, the next product, \<open>6660676992215431 \<sqdot> 2\<^sup>1\<^sup>4\<close>, being
  above \<open>10\<^sup>2\<^sup>0\<close>. A checked run is a run of the loop.
\<close>

lemma rounds_to_sound:
  assumes "rounds_to a b c"
  shows "round_product a b = c"
proof -
  define p where "p = fst a * fst b"
  define s :: nat where "s = (if p < 2 ^ 105 then 52 else 53)"
  define q' where "q' = fst c"
  have s_pos: "0 < s" by (simp add: s_def)
  have c: "q' \<noteq> 2 ^ 53" "snd c = snd a + snd b + int s"
      "2 * \<bar>int p - int q' * 2 ^ s\<bar> < 2 ^ s"
    using assms by (simp_all add: rounds_to_def Let_def p_def s_def q'_def)
  have half: "(2::nat) ^ s = 2 * 2 ^ (s - 1)" using s_pos by (cases s) simp_all
  have dm: "p div 2 ^ s = (if q' * 2 ^ s \<le> p then q' else q' - 1) \<and>
            (if q' * 2 ^ s \<le> p then p mod 2 ^ s < 2 ^ (s - 1) else 2 ^ (s - 1) < p mod 2 ^ s) \<and>
            (q' * 2 ^ s \<le> p \<or> 0 < q')"
  proof (cases "q' * 2 ^ s \<le> p")
    case True
    define d where "d = p - q' * 2 ^ s"
    have p: "p = q' * 2 ^ s + d" using True by (simp add: d_def)
    have "int (q' * 2 ^ s) \<le> int p" using True by (simp only: of_nat_le_iff)
    then have ip: "int q' * 2 ^ s \<le> int p" by simp
    have "int d = int p - int q' * 2 ^ s" using True by (simp add: d_def of_nat_diff)
    moreover have "\<bar>int p - int q' * 2 ^ s\<bar> = int p - int q' * 2 ^ s" using ip by simp
    ultimately have "2 * int d < 2 ^ s" using c(3) by simp
    then have "int (2 * d) < int (2 ^ s)" by simp
    then have d: "2 * d < 2 ^ s" by (simp only: of_nat_less_iff)
    then have d1: "d < 2 ^ s" by simp
    have "p div 2 ^ s = q'" unfolding p using d1 by simp
    moreover have "p mod 2 ^ s = d" unfolding p using d1 by simp
    moreover have "d < 2 ^ (s - 1)" using d half by simp
    ultimately show ?thesis using True by simp
  next
    case False
    define d where "d = q' * 2 ^ s - p"
    have dpos: "0 < d" using False by (simp add: d_def)
    have q_pos: "0 < q'" using False by (cases q') simp_all
    have "int p < int (q' * 2 ^ s)" using False by (simp only: of_nat_less_iff)
    then have ip: "int p < int q' * 2 ^ s" by simp
    have "int d = int q' * 2 ^ s - int p" using False by (simp add: d_def of_nat_diff)
    moreover have "\<bar>int p - int q' * 2 ^ s\<bar> = int q' * 2 ^ s - int p" using ip by simp
    ultimately have "2 * int d < 2 ^ s" using c(3) by simp
    then have "int (2 * d) < int (2 ^ s)" by simp
    then have d: "2 * d < 2 ^ s" by (simp only: of_nat_less_iff)
    then have d1: "d < 2 ^ s" by simp
    have "q' * 2 ^ s = (q' - 1) * 2 ^ s + 2 ^ s" using q_pos by (cases q') simp_all
    then have p: "p = (q' - 1) * 2 ^ s + (2 ^ s - d)" using False d1 by (simp add: d_def)
    have lt: "2 ^ s - d < (2::nat) ^ s" using dpos by simp
    have "p div 2 ^ s = q' - 1" unfolding p using lt by simp
    moreover have "p mod 2 ^ s = 2 ^ s - d" unfolding p using lt by simp
    moreover have "2 ^ (s - 1) < 2 ^ s - d" using d half by simp
    ultimately show ?thesis using False q_pos by simp
  qed
  have rp: "round_product a b =
      (if (if 2 ^ (s - 1) < p mod 2 ^ s \<or> (p mod 2 ^ s = 2 ^ (s - 1) \<and> odd (p div 2 ^ s))
           then p div 2 ^ s + 1 else p div 2 ^ s) = 2 ^ 53
       then (2 ^ 52, snd a + snd b + int s + 1)
       else (if 2 ^ (s - 1) < p mod 2 ^ s \<or> (p mod 2 ^ s = 2 ^ (s - 1) \<and> odd (p div 2 ^ s))
             then p div 2 ^ s + 1 else p div 2 ^ s, snd a + snd b + int s))"
    unfolding round_product_def Let_def p_def s_def ..
  have "round_product a b = (q', snd a + snd b + int s)"
  proof (cases "q' * 2 ^ s \<le> p")
    case True
    then have "p div 2 ^ s = q'" "p mod 2 ^ s < 2 ^ (s - 1)" using dm by simp_all
    then show ?thesis unfolding rp using c(1) by simp
  next
    case False
    then have "p div 2 ^ s = q' - 1" "2 ^ (s - 1) < p mod 2 ^ s" "0 < q'" using dm by simp_all
    then show ?thesis unfolding rp using c(1) by simp
  qed
  then show ?thesis using c(2) by (simp add: q'_def prod_eq_iff)
qed

lemma grow_ok_sound:
  "grow_ok (v # rest) \<Longrightarrow>
   grow_buckets v buckets = Some (buckets @ map dval (butlast (v # rest)))"
proof (induction rest arbitrary: v buckets)
  case Nil
  then show ?case by (subst grow_buckets.simps) simp
next
  case (Cons v' rest)
  then have 1: "dval v < 10 ^ 20" and 2: "round_product v double_1_1 = v'"
    and 3: "grow_ok (v' # rest)"
    by (simp_all add: rounds_to_sound)
  show ?case using Cons.IH[OF 3, of "buckets @ [dval v]"] 1 2
    by (subst grow_buckets.simps) simp
qed

lemma dval_small: "m < 2 ^ 53 \<Longrightarrow> e \<le> 13 \<Longrightarrow> dval (m, e) < 100000000000000000000"
proof -
  assume m: "m < 2 ^ 53" and e: "e \<le> 13"
  have "(2::real) powi e \<le> 2 powi 13" using e by (intro power_int_increasing) simp_all
  then have "dval (m, e) \<le> real m * 2 powi 13"
    by (simp add: dval_def mult_left_mono)
  also have "\<dots> < 2 ^ 53 * 2 powi 13" using m by simp
  also have "\<dots> < (100000000000000000000::real)" by simp
  finally show ?thesis .
qed

lemma dval_14: "(dval (m, 14) < 100000000000000000000) = (m < 6103515625000000)"
  by (simp add: dval_def)

lemma grown_doubles_ok: "grow_ok (grown_doubles @ [(6660676992215431, 14)])"
  unfolding grown_doubles_def
  by (simp add: rounds_to_def double_1_1_def Let_def dval_small dval_14)

lemma grow_buckets_default: "grow_buckets double_1e_minus_12 [] = Some grown_buckets"
proof -
  have e: "grown_doubles @ [(6660676992215431, 14)]
             = double_1e_minus_12 # (tl grown_doubles @ [(6660676992215431, 14)])"
    by (simp add: grown_doubles_def double_1e_minus_12_def)
  have "grow_ok (double_1e_minus_12 # (tl grown_doubles @ [(6660676992215431, 14)]))"
    using grown_doubles_ok by (simp only: e)
  then have "grow_buckets double_1e_minus_12 []
      = Some ([] @ map dval (butlast (double_1e_minus_12 # (tl grown_doubles @ [(6660676992215431, 14)]))))"
    by (rule grow_ok_sound)
  then show ?thesis by (simp only: e[symmetric] butlast_snoc grown_buckets_def append_Nil)
qed

text \<open>
  The grown values: \<open>774\<close> of them, ascending, the first \<^verbatim>\<open>1e-12\<close>, the last
  \<open>6055160902014028 \<sqdot> 2\<^sup>1\<^sup>4 = 99207756218597834752\<close>; around \<open>1\<close>, the value at index
  \<open>289\<close> is below \<open>1\<close> and the one at index \<open>290\<close> is above.
\<close>

lemma length_grown_buckets: "length grown_buckets = 774"
  by (simp add: grown_buckets_def grown_doubles_def)

lemma dval_le_same: "(dval (m, e) \<le> dval (m', e)) = (m \<le> m')"
  by (simp add: dval_def)

lemma dval_le_next: "e' = e + 1 \<Longrightarrow> (dval (m, e) \<le> dval (m', e')) = (m \<le> 2 * m')"
proof -
  assume e: "e' = e + 1"
  have p: "(0::real) < 2 powi e" by simp
  have "(2::real) powi e' = 2 powi e * 2" unfolding e by (simp add: power_int_add)
  then have "real m' * 2 powi e' = real m' * (2 powi e * 2)" by (simp only:)
  also have "\<dots> = real (2 * m') * 2 powi e" by simp
  finally have "dval (m', e') = real (2 * m') * 2 powi e"
    by (simp only: dval_def fst_conv snd_conv)
  then have "(dval (m, e) \<le> dval (m', e')) = (real m * 2 powi e \<le> real (2 * m') * 2 powi e)"
    by (simp only: dval_def fst_conv snd_conv)
  also have "\<dots> = (real m \<le> real (2 * m'))" using p by (rule mult_le_cancel_right_pos)
  also have "\<dots> = (m \<le> 2 * m')" by (rule of_nat_le_iff)
  finally show ?thesis .
qed

lemma grown_doubles_ascending: "successively (\<lambda>a b. dval a \<le> dval b) grown_doubles"
  unfolding grown_doubles_def
  by (simp add: dval_le_same dval_le_next cong del: successively_cong)

lemma sorted_grown_buckets: "sorted grown_buckets"
proof -
  have "transp (\<lambda>a b. dval a \<le> dval b)" by (rule transpI) simp
  then have "sorted_wrt (\<lambda>a b. dval a \<le> dval b) grown_doubles"
    using grown_doubles_ascending by (simp add: successively_conv_sorted_wrt)
  then show ?thesis by (simp add: grown_buckets_def sorted_map)
qed

lemma grown_buckets_nth:
  shows "grown_buckets ! 0 = dval (4951760157141521, -92)"
    and "grown_buckets ! 289 = dval (8261820991772936, -53)"
    and "grown_buckets ! 290 = dval (4544001545475115, -52)"
    and "grown_buckets ! 773 = 99207756218597834752"
proof -
  have l: "length grown_doubles = 774" by (simp add: grown_doubles_def)
  have "grown_doubles ! 0 = (4951760157141521, -92)" by (simp add: grown_doubles_def)
  then show "grown_buckets ! 0 = dval (4951760157141521, -92)"
    using l by (simp add: grown_buckets_def)
  have "grown_doubles ! 289 = (8261820991772936, -53)" by (simp add: grown_doubles_def)
  then show "grown_buckets ! 289 = dval (8261820991772936, -53)"
    using l by (simp add: grown_buckets_def)
  have "grown_doubles ! 290 = (4544001545475115, -52)" by (simp add: grown_doubles_def)
  then show "grown_buckets ! 290 = dval (4544001545475115, -52)"
    using l by (simp add: grown_buckets_def)
  have "grown_doubles ! 773 = (6055160902014028, 14)" by (simp add: grown_doubles_def)
  moreover have "dval (6055160902014028, 14) = 99207756218597834752" by (simp add: dval_def)
  ultimately show "grown_buckets ! 773 = 99207756218597834752"
    using l by (simp add: grown_buckets_def)
qed

lemma last_grown_lt: "(99207756218597834752::real) < 10 ^ 20"
  by simp

lemma grown_le_last: "x \<in> set grown_buckets \<Longrightarrow> 0 < x \<and> x \<le> 99207756218597834752"
proof -
  assume "x \<in> set grown_buckets"
  then obtain i where i: "i < 774" and x: "x = grown_buckets ! i"
    using length_grown_buckets by (metis in_set_conv_nth)
  have "grown_buckets ! 0 \<le> grown_buckets ! i"
    using sorted_grown_buckets i length_grown_buckets by (intro sorted_nth_mono) simp_all
  moreover have "(0::real) < dval (4951760157141521, -92)" by (simp add: dval_def)
  ultimately have "0 < x" unfolding x grown_buckets_nth(1) by simp
  moreover have "grown_buckets ! i \<le> grown_buckets ! 773"
    using sorted_grown_buckets i length_grown_buckets by (intro sorted_nth_mono) simp_all
  ultimately show ?thesis unfolding x grown_buckets_nth(4) by simp
qed

lemma grown_lt: "x \<in> set grown_buckets \<Longrightarrow> 0 < x \<and> x < 10 ^ 20"
  using grown_le_last[of x] last_grown_lt by simp

text \<open>
  The three copies. The second loop writes the indices \<open>size, \<dots>, 2 * size - 1\<close>: it
  overwrites the zero that was stored at index \<open>size\<close>, and the last element,
  at index \<open>2 * size\<close>, keeps its initial \<open>0\<close>. The table is \<open>-buckets\<close> reversed, then
  \<open>buckets\<close>, then \<open>0\<close>; the source's comment asks for \<^verbatim>\<open>(-buckets, 0, buckets)\<close>.
\<close>

lemma foldl_update_length:
  "length (foldl (\<lambda>bl i. bl[f i := g i]) bl is) = length bl"
  by (induction "is" arbitrary: bl) auto

lemma foldl_update_offset_nth:
  "j < length bl \<Longrightarrow>
   foldl (\<lambda>bl i. bl[off + i := g i]) bl [0..<n] ! j =
     (if off \<le> j \<and> j < off + n then g (j - off) else bl ! j)"
proof (induction n)
  case 0
  then show ?case by auto
next
  case (Suc n)
  let ?r = "foldl (\<lambda>bl i. bl[off + i := g i]) bl [0..<n]"
  have len: "length ?r = length bl" by (rule foldl_update_length)
  have "foldl (\<lambda>bl i. bl[off + i := g i]) bl [0..<Suc n] ! j = (?r[off + n := g n]) ! j"
    by simp
  also have "\<dots> = (if off + n = j then g n else ?r ! j)"
    using Suc.prems len by (simp add: nth_list_update)
  also have "\<dots> = (if off \<le> j \<and> j < off + Suc n then g (j - off) else bl ! j)"
  proof (cases "off + n = j")
    case True
    then have "j - off = n" by simp
    with True show ?thesis by auto
  next
    case False
    then show ?thesis using Suc.IH[OF Suc.prems] by auto
  qed
  finally show ?case .
qed

lemma fill_bucket_limits_eq:
  "fill_bucket_limits buckets = map uminus (rev buckets) @ buckets @ [0]"
proof (rule nth_equalityI)
  let ?k = "length buckets"
  let ?z = "replicate (?k * 2 + 1) (0::real)"
  let ?n = "foldl (\<lambda>bl i. bl[0 + i := - (buckets ! (?k - 1 - i))]) ?z [0..<?k]"
  let ?m = "?n[?k := 0]"
  have f: "fill_bucket_limits buckets
             = foldl (\<lambda>bl i. bl[?k + i := buckets ! i]) ?m [0..<?k]"
    by (simp add: fill_bucket_limits_def copy_negated_def copy_positive_def Let_def)
  have len_n: "length ?n = ?k * 2 + 1" by (simp only: foldl_update_length length_replicate)
  have len_m: "length ?m = ?k * 2 + 1" using len_n by simp
  show len: "length (fill_bucket_limits buckets)
               = length (map uminus (rev buckets) @ buckets @ [0])"
    unfolding f by (simp only: foldl_update_length len_m) simp
  fix j assume "j < length (fill_bucket_limits buckets)"
  then have j: "j < ?k * 2 + 1" using len by simp
  have z_j: "?z ! j = 0" using j by (simp only: nth_replicate)
  have n_j: "?n ! j = (if j < ?k then - (buckets ! (?k - 1 - j)) else 0)"
    using j z_j by (subst foldl_update_offset_nth) (auto simp del: replicate.simps replicate_Suc)
  have m_j: "?m ! j = (if j < ?k then - (buckets ! (?k - 1 - j)) else 0)"
    using j n_j len_n by (simp add: nth_list_update)
  have "fill_bucket_limits buckets ! j
          = (if ?k \<le> j \<and> j < ?k + ?k then buckets ! (j - ?k) else ?m ! j)"
    unfolding f using j len_m by (subst foldl_update_offset_nth) auto
  also have "\<dots> = (map uminus (rev buckets) @ buckets @ [0]) ! j"
    using j m_j by (auto simp add: nth_append rev_nth)
  finally show "fill_bucket_limits buckets ! j = (map uminus (rev buckets) @ buckets @ [0]) ! j" .
qed

lemma DefaultHistogramBuckets_eq:
  "DefaultHistogramBuckets =
     Some (map uminus (rev (grown_buckets @ [dbl_max])) @ (grown_buckets @ [dbl_max]) @ [0])"
  by (simp only: DefaultHistogramBuckets_def InitDefaultHistogramBuckets_def
        grow_buckets_default option.case fill_bucket_limits_eq)

lemma dbl_max_ge: "10 ^ 20 \<le> dbl_max"
  by (simp add: dbl_max_def)

lemma merge_from_zero_run:
  "length es = m \<Longrightarrow> merge_from (0, e) (zip (replicate m 0) es) = [(0, last (e # es))]"
proof (induction es arbitrary: e m)
  case Nil
  then show ?case by simp
next
  case (Cons e' es)
  then obtain m' where m: "m = Suc m'" "length es = m'" by (cases m) auto
  show ?case using Cons.IH[OF m(2), of e'] m by simp
qed

lemma SerializeToProto_fresh:
  assumes "limits \<noteq> []"
  shows "pairs (SerializeToProto (Histogram_limits limits) HistogramProto_new) = [(0, last limits)]"
proof -
  obtain e es where l: "limits = e # es" using assms by (cases limits) auto
  have "pairs (SerializeToProto (Histogram_limits limits) HistogramProto_new)
          = merged_pairs (zip (replicate (length limits) 0) limits)"
    using SerializeToProto_pairs[of "Histogram_limits limits" HistogramProto_new]
    by (simp add: Histogram_limits_def HistogramProto_new_def pairs_def zip_map_fst_snd)
  also have "\<dots> = [(0, last limits)]"
    using merge_from_zero_run[of es "length es" e] l by simp
  finally show ?thesis .
qed

lemma SerializeToProto_nonempty: "bucket (SerializeToProto h histogram) \<noteq> []"
  by (simp add: SerializeToProto_def Let_def)

lemma Histogram_default_eq:
  "Histogram_default =
     Some (Histogram_limits
       (map uminus (rev (grown_buckets @ [dbl_max])) @ (grown_buckets @ [dbl_max]) @ [0]))"
  by (simp add: Histogram_default_def DefaultHistogramBuckets_eq)

lemma default_limits_le_dbl_max:
  "x \<in> set (map uminus (rev (grown_buckets @ [dbl_max])) @ (grown_buckets @ [dbl_max]) @ [0])
   \<Longrightarrow> x \<le> dbl_max"
  using grown_lt dbl_max_ge by fastforce

text \<open>
  Claim C2. A new default histogram exists (the table's loop ends), and with no
  \<^verbatim>\<open>Add\<close> its export is exactly one pair; the pair is \<open>(0, 0)\<close>, the edge being the
  last element of the table, which is \<open>0\<close> and not the largest double. That the export
  always has at least one pair is lemma \<open>SerializeToProto_nonempty\<close>.
\<close>

theorem fresh_default_histogram_serializes_zero_edge:
  "\<exists>h. Histogram_default = Some h \<and> num_m h = 0 \<and>
       pairs (SerializeToProto h HistogramProto_new) = [(0, 0)]"
  using SerializeToProto_fresh
    [of "map uminus (rev (grown_buckets @ [dbl_max])) @ (grown_buckets @ [dbl_max]) @ [0]"]
  by (simp add: Histogram_default_eq Histogram_limits_def)

lemma upper_bound_loop_left:
  "0 < len \<Longrightarrow> val < xs ! (first + len div 2) \<Longrightarrow>
   upper_bound_loop xs val first len = upper_bound_loop xs val first (len div 2)"
  by (subst upper_bound_loop.simps) (simp add: Let_def)

lemma upper_bound_loop_right:
  "0 < len \<Longrightarrow> xs ! (first + len div 2) \<le> val \<Longrightarrow>
   upper_bound_loop xs val first len
     = upper_bound_loop xs val (first + len div 2 + 1) (len - len div 2 - 1)"
  by (subst upper_bound_loop.simps) (simp add: Let_def)

lemma upper_bound_loop_done: "upper_bound_loop xs val first 0 = first"
  by (subst upper_bound_loop.simps) simp

lemma upper_bound_loop_take:
  "first + len \<le> m \<Longrightarrow>
   upper_bound_loop (take m xs) val first len = upper_bound_loop xs val first len"
proof (induction xs val first len rule: upper_bound_loop.induct)
  case (1 xs val first len)
  show ?case
  proof (cases "0 < len")
    case False
    then show ?thesis by (simp add: upper_bound_loop_done)
  next
    case True
    let ?mid = "first + len div 2"
    have mid: "take m xs ! ?mid = xs ! ?mid" using True "1.prems" by simp
    show ?thesis
    proof (cases "val < xs ! ?mid")
      case left: True
      have "upper_bound_loop (take m xs) val first (len div 2)
              = upper_bound_loop xs val first (len div 2)"
        using "1.prems" left True by (intro "1.IH"(1)[OF True refl refl]) auto
      moreover have "upper_bound_loop (take m xs) val first len
              = upper_bound_loop (take m xs) val first (len div 2)"
        using True left mid by (intro upper_bound_loop_left) simp_all
      moreover have "upper_bound_loop xs val first len = upper_bound_loop xs val first (len div 2)"
        using True left by (intro upper_bound_loop_left)
      ultimately show ?thesis by simp
    next
      case right: False
      have "upper_bound_loop (take m xs) val (?mid + 1) (len - len div 2 - 1)
              = upper_bound_loop xs val (?mid + 1) (len - len div 2 - 1)"
        using "1.prems" right True by (intro "1.IH"(2)[OF True refl refl]) auto
      moreover have "upper_bound_loop (take m xs) val first len
              = upper_bound_loop (take m xs) val (?mid + 1) (len - len div 2 - 1)"
        using True right mid by (intro upper_bound_loop_right) simp_all
      moreover have "upper_bound_loop xs val first len
              = upper_bound_loop xs val (?mid + 1) (len - len div 2 - 1)"
        using True right by (intro upper_bound_loop_right) simp_all
      ultimately show ?thesis by simp
    qed
  qed
qed

text \<open>
  The search tolerates one element out of order at the very end, as long as a greater
  element stands at least two positions before it: it then never looks at the last one.
\<close>

lemma upper_bound_loop_sorted_but_last:
  "sorted (take m xs) \<Longrightarrow> m \<le> length xs \<Longrightarrow> first + len \<le> m + 1 \<Longrightarrow>
   (\<And>j. j < first \<Longrightarrow> xs ! j \<le> val) \<Longrightarrow>
   first \<le> w \<Longrightarrow> w < first + len \<Longrightarrow> w + 2 \<le> m \<Longrightarrow> val < xs ! w \<Longrightarrow>
   upper_bound_loop xs val first len \<le> w \<and>
   (\<forall>j < upper_bound_loop xs val first len. xs ! j \<le> val) \<and>
   val < xs ! upper_bound_loop xs val first len"
proof (induction xs val first len rule: upper_bound_loop.induct)
  case (1 xs val first len)
  let ?mid = "first + len div 2"
  have len: "0 < len" using "1.prems"(5,6) by simp
  have "2 * (len div 2) \<le> len" by simp
  then have mid_m: "?mid < m" using "1.prems"(3,5,7) by linarith
  have nth: "take m xs ! j = xs ! j" if "j < m" for j using that by simp
  have mono: "xs ! i \<le> xs ! j" if "i \<le> j" "j < m" for i j
  proof -
    have "take m xs ! i \<le> take m xs ! j"
      using "1.prems"(1,2) that by (intro sorted_nth_mono) simp_all
    then show ?thesis using that by simp
  qed
  show ?case
  proof (cases "val < xs ! ?mid")
    case left: True
    have eq: "upper_bound_loop xs val first len = upper_bound_loop xs val first (len div 2)"
      using len left by (intro upper_bound_loop_left)
    let ?r = "upper_bound_loop (take m xs) val first (len div 2)"
    have r_eq: "?r = upper_bound_loop xs val first (len div 2)"
      using mid_m by (intro upper_bound_loop_take) simp
    have "?r \<le> length (take m xs) \<and> (\<forall>j < ?r. take m xs ! j \<le> val) \<and>
          (\<forall>j. ?r \<le> j \<and> j < length (take m xs) \<longrightarrow> val < take m xs ! j)"
    proof (intro upper_bound_loop_sorted)
      show "sorted (take m xs)" by (rule "1.prems"(1))
      show "first + len div 2 \<le> length (take m xs)" using mid_m "1.prems"(2) by simp
      show "take m xs ! j \<le> val" if "j < first" for j
        using "1.prems"(4)[OF that] that mid_m by simp
      show "val < take m xs ! j" if "first + len div 2 \<le> j" "j < length (take m xs)" for j
      proof -
        have "j < m" using that(2) by simp
        then have "xs ! ?mid \<le> xs ! j" using that(1) by (intro mono)
        then show ?thesis using left \<open>j < m\<close> by simp
      qed
    qed
    then have c: "?r \<le> length (take m xs)" "\<forall>j < ?r. take m xs ! j \<le> val"
        "\<forall>j. ?r \<le> j \<and> j < length (take m xs) \<longrightarrow> val < take m xs ! j"
      by blast+
    have lt: "length (take m xs) = m" using "1.prems"(2) by simp
    have r1: "?r \<le> m" using c(1) lt by simp
    have r2: "xs ! j \<le> val" if "j < ?r" for j
    proof -
      have "take m xs ! j \<le> val" using c(2) that by blast
      moreover have "j < m" using that r1 by simp
      ultimately show ?thesis by simp
    qed
    have r3: "val < xs ! j" if "?r \<le> j" "j < m" for j
    proof -
      have "val < take m xs ! j" using c(3) that lt by simp
      then show ?thesis using that(2) by simp
    qed
    note r = r1 r2 r3
    have w_m: "w < m" using "1.prems"(7) by simp
    have "?r \<le> w"
    proof (rule ccontr)
      assume "\<not> ?r \<le> w"
      then have "xs ! w \<le> val" using r(2)[of w] by simp
      then show False using "1.prems"(8) by simp
    qed
    moreover have "val < xs ! ?r" using r(3)[of ?r] calculation w_m by simp
    ultimately show ?thesis using r(2) eq r_eq by simp
  next
    case right: False
    have eq: "upper_bound_loop xs val first len
                = upper_bound_loop xs val (?mid + 1) (len - len div 2 - 1)"
      using len right by (intro upper_bound_loop_right) simp_all
    have w_gt: "?mid < w"
    proof (rule ccontr)
      assume "\<not> ?mid < w"
      then have "xs ! w \<le> xs ! ?mid" using mid_m by (intro mono) simp_all
      then show False using right "1.prems"(8) by simp
    qed
    have "upper_bound_loop xs val (?mid + 1) (len - len div 2 - 1) \<le> w \<and>
          (\<forall>j < upper_bound_loop xs val (?mid + 1) (len - len div 2 - 1). xs ! j \<le> val) \<and>
          val < xs ! upper_bound_loop xs val (?mid + 1) (len - len div 2 - 1)"
    proof (intro "1.IH"(2)[OF len refl refl right])
      show "sorted (take m xs)" by (rule "1.prems"(1))
      show "m \<le> length xs" by (rule "1.prems"(2))
      show "?mid + 1 + (len - len div 2 - 1) \<le> m + 1" using "1.prems"(3) len by simp
      show "xs ! j \<le> val" if "j < ?mid + 1" for j
      proof -
        have "xs ! j \<le> xs ! ?mid" using that mid_m by (intro mono) simp_all
        then show ?thesis using right by simp
      qed
      show "?mid + 1 \<le> w" using w_gt by simp
      show "w < ?mid + 1 + (len - len div 2 - 1)" using "1.prems"(6) len by simp
      show "w + 2 \<le> m" by (rule "1.prems"(7))
      show "val < xs ! w" by (rule "1.prems"(8))
    qed
    then show ?thesis using eq by simp
  qed
qed

lemma upper_bound_sorted_but_last:
  assumes "sorted (butlast xs)" "first_greater xs val + 3 \<le> length xs"
  shows "upper_bound xs val = first_greater xs val"
proof -
  let ?w = "first_greater xs val"
  let ?m = "length xs - 1"
  let ?r = "upper_bound_loop xs val 0 (length xs)"
  have "?r \<le> ?w \<and> (\<forall>j < ?r. xs ! j \<le> val) \<and> val < xs ! ?r"
  proof (intro upper_bound_loop_sorted_but_last[where m = ?m])
    show "sorted (take ?m xs)" using assms(1) by (simp add: butlast_conv_take)
    show "?w + 2 \<le> ?m" using assms(2) by simp
    show "val < xs ! ?w" using assms(2) by (intro first_greater_at) simp
    show "?w < 0 + length xs" using assms(2) by simp
  qed (use assms(2) in simp_all)
  then have "first_greater xs val = ?r"
    using assms(2) by (intro first_greater_unique) auto
  then show ?thesis by (simp add: upper_bound_def)
qed

lemma first_greater_le_index:
  "j < length xs \<Longrightarrow> val < xs ! j \<Longrightarrow> first_greater xs val \<le> j"
  using first_greater_below[of j xs val] by (cases "first_greater xs val \<le> j") auto

lemma sorted_mirror:
  fixes B :: "real list"
  assumes "sorted B" "\<forall>x \<in> set B. 0 < x"
  shows "sorted (map uminus (rev B) @ B)"
proof -
  have "sorted_wrt (\<lambda>x y. - x \<le> - y) (rev B)"
    using assms(1) by (simp add: sorted_wrt_rev)
  then have "sorted (map uminus (rev B))" by (simp add: sorted_map)
  moreover have "x \<le> y" if "x \<in> set (map uminus (rev B))" "y \<in> set B" for x y
  proof -
    have "- x \<in> set B" using that(1) by auto
    then have "0 < - x" using assms(2) by blast
    then have "x < 0" by simp
    moreover have "0 < y" using that(2) assms(2) by simp
    ultimately show ?thesis by simp
  qed
  ultimately show ?thesis using assms(1) by (simp add: sorted_append)
qed

text \<open>
  The search on the default table for a value from the last grown one on: every probe, at
  the indices \<open>775, 1163, 1357, 1454, 1503, 1527, 1539, 1545, 1548\<close> and \<open>1550\<close>, finds
  an element that is not greater, the last of them the trailing \<open>0\<close>; the largest double,
  at index \<open>1549\<close>, is never looked at.
\<close>

lemma default_limits_nth:
  fixes i :: nat
  defines "T \<equiv> map uminus (rev (grown_buckets @ [dbl_max])) @ (grown_buckets @ [dbl_max]) @ [0]"
  shows "length T = 1551"
    and "i < 775 \<Longrightarrow> T ! i < 0"
    and "775 \<le> i \<Longrightarrow> i < 1549 \<Longrightarrow> 0 < T ! i \<and> T ! i < 10 ^ 20"
    and "T ! 1549 = dbl_max"
    and "T ! 1550 = 0"
    and "775 \<le> i \<Longrightarrow> i < 1549 \<Longrightarrow> T ! i \<le> 99207756218597834752"
    and "T ! 1548 = 99207756218597834752"
    and "sorted (butlast T)"
    and "775 \<le> i \<Longrightarrow> i < 1549 \<Longrightarrow> T ! i = grown_buckets ! (i - 775)"
proof -
  let ?N = "map uminus (rev (grown_buckets @ [dbl_max]))"
  have lg: "length grown_buckets = 774" by (rule length_grown_buckets)
  have lN: "length ?N = 775" using lg by simp
  have T: "T = ?N @ (grown_buckets @ [dbl_max, 0])" by (simp add: T_def)
  have right: "T ! i = (grown_buckets @ [dbl_max, 0]) ! (i - 775)" if "775 \<le> i" for i
    unfolding T using that lN by (simp only: nth_append) simp
  show "length T = 1551" unfolding T using lN lg by simp
  show "T ! 1549 = dbl_max" using right[of 1549] lg by (simp add: nth_append)
  show "T ! 1550 = 0" using right[of 1550] lg by (simp add: nth_append)
  show "T ! i < 0" if "i < 775"
  proof -
    have "T ! i = ?N ! i" unfolding T using that lN by (simp only: nth_append) simp
    also have "\<dots> = - (rev (grown_buckets @ [dbl_max]) ! i)"
      using that lg by (intro nth_map) simp
    finally have n: "T ! i = - (rev (grown_buckets @ [dbl_max]) ! i)" .
    have "rev (grown_buckets @ [dbl_max]) ! i \<in> set (rev (grown_buckets @ [dbl_max]))"
      using that lg by (intro nth_mem) simp
    then have "rev (grown_buckets @ [dbl_max]) ! i \<in> set grown_buckets
               \<or> rev (grown_buckets @ [dbl_max]) ! i = dbl_max"
      by auto
    moreover have "0 < dbl_max" by (simp add: dbl_max_def)
    ultimately have "0 < rev (grown_buckets @ [dbl_max]) ! i" using grown_lt by auto
    with n show ?thesis by simp
  qed
  have grown: "T ! i = grown_buckets ! (i - 775) \<and> grown_buckets ! (i - 775) \<in> set grown_buckets"
    if "775 \<le> i" "i < 1549" for i
  proof -
    have lt: "i - 775 < length grown_buckets" using that lg by arith
    have "T ! i = grown_buckets ! (i - 775)"
      using right[OF that(1)] lt by (simp only: nth_append_left)
    moreover have "grown_buckets ! (i - 775) \<in> set grown_buckets"
      using lt by (rule nth_mem)
    ultimately show ?thesis by simp
  qed
  show "0 < T ! i \<and> T ! i < 10 ^ 20" if "775 \<le> i" "i < 1549"
    using grown[OF that] grown_lt by simp
  show "T ! i \<le> 99207756218597834752" if "775 \<le> i" "i < 1549"
    using grown[OF that] grown_le_last by simp
  show "T ! i = grown_buckets ! (i - 775)" if "775 \<le> i" "i < 1549"
    using grown[OF that] by simp
  show "T ! 1548 = 99207756218597834752"
    using grown[of 1548] by (simp add: grown_buckets_nth(4))
  have "sorted (grown_buckets @ [dbl_max])"
    using sorted_grown_buckets grown_lt dbl_max_ge by (fastforce simp add: sorted_append)
  moreover have "\<forall>x \<in> set (grown_buckets @ [dbl_max]). 0 < x"
    using grown_lt by (auto simp add: dbl_max_def)
  ultimately have "sorted (?N @ (grown_buckets @ [dbl_max]))" by (rule sorted_mirror)
  moreover have "butlast T = ?N @ (grown_buckets @ [dbl_max])"
    by (simp add: T_def butlast_append)
  ultimately show "sorted (butlast T)" by simp
qed

lemma default_upper_bound_large:
  assumes "99207756218597834752 \<le> v"
  shows "upper_bound
           (map uminus (rev (grown_buckets @ [dbl_max])) @ (grown_buckets @ [dbl_max]) @ [0]) v
         = 1551"
proof -
  let ?T = "map uminus (rev (grown_buckets @ [dbl_max])) @ (grown_buckets @ [dbl_max]) @ [0]"
  have "(0::real) < 99207756218597834752" by simp
  then have vpos: "0 < v" using assms by (rule less_le_trans)
  have at: "?T ! i \<le> v" if "775 \<le> i \<and> i < 1549 \<or> i = 1550" for i
  proof (cases "i = 1550")
    case True
    then show ?thesis using vpos default_limits_nth(5) by simp
  next
    case False
    then have "?T ! i \<le> 99207756218597834752"
      using that by (intro default_limits_nth(6)) simp_all
    then show ?thesis using assms by (rule order_trans)
  qed
  have s0: "upper_bound_loop ?T v 0 1551 = upper_bound_loop ?T v 776 775"
    using upper_bound_loop_right[of 1551 ?T 0 v] at[of 775] by simp
  have s1: "upper_bound_loop ?T v 776 775 = upper_bound_loop ?T v 1164 387"
    using upper_bound_loop_right[of 775 ?T 776 v] at[of 1163] by simp
  have s2: "upper_bound_loop ?T v 1164 387 = upper_bound_loop ?T v 1358 193"
    using upper_bound_loop_right[of 387 ?T 1164 v] at[of 1357] by simp
  have s3: "upper_bound_loop ?T v 1358 193 = upper_bound_loop ?T v 1455 96"
    using upper_bound_loop_right[of 193 ?T 1358 v] at[of 1454] by simp
  have s4: "upper_bound_loop ?T v 1455 96 = upper_bound_loop ?T v 1504 47"
    using upper_bound_loop_right[of 96 ?T 1455 v] at[of 1503] by simp
  have s5: "upper_bound_loop ?T v 1504 47 = upper_bound_loop ?T v 1528 23"
    using upper_bound_loop_right[of 47 ?T 1504 v] at[of 1527] by simp
  have s6: "upper_bound_loop ?T v 1528 23 = upper_bound_loop ?T v 1540 11"
    using upper_bound_loop_right[of 23 ?T 1528 v] at[of 1539] by simp
  have s7: "upper_bound_loop ?T v 1540 11 = upper_bound_loop ?T v 1546 5"
    using upper_bound_loop_right[of 11 ?T 1540 v] at[of 1545] by simp
  have s8: "upper_bound_loop ?T v 1546 5 = upper_bound_loop ?T v 1549 2"
    using upper_bound_loop_right[of 5 ?T 1546 v] at[of 1548] by simp
  have s9: "upper_bound_loop ?T v 1549 2 = upper_bound_loop ?T v 1551 0"
    using upper_bound_loop_right[of 2 ?T 1549 v] at[of 1550] by simp
  have "upper_bound_loop ?T v 0 1551 = upper_bound_loop ?T v 1551 0"
    by (simp only: s0 s1 s2 s3 s4 s5 s6 s7 s8 s9)
  also have "\<dots> = 1551" by (subst upper_bound_loop.simps) simp
  finally show ?thesis by (simp only: upper_bound_def default_limits_nth(1))
qed

lemma default_first_greater_large:
  assumes "99207756218597834752 \<le> v" "v < dbl_max"
  shows "first_greater
           (map uminus (rev (grown_buckets @ [dbl_max])) @ (grown_buckets @ [dbl_max]) @ [0]) v
         = 1549"
proof (rule first_greater_unique)
  let ?T = "map uminus (rev (grown_buckets @ [dbl_max])) @ (grown_buckets @ [dbl_max]) @ [0]"
  show "1549 \<le> length ?T" unfolding default_limits_nth(1) by simp
  have "(0::real) < 99207756218597834752" by simp
  then have vpos: "0 < v" using assms(1) by (rule less_le_trans)
  show "?T ! j \<le> v" if "j < 1549" for j
  proof (cases "j < 775")
    case True
    then have "?T ! j < 0" by (rule default_limits_nth(2))
    then show ?thesis using vpos by simp
  next
    case False
    then have "?T ! j \<le> 99207756218597834752"
      using that by (intro default_limits_nth(6)) simp_all
    then show ?thesis using assms(1) by (rule order_trans)
  qed
  show "v < ?T ! 1549" using assms(2) by (simp only: default_limits_nth(4))
qed

lemma default_Add_large_faults:
  assumes "99207756218597834752 \<le> v" "v < dbl_max"
  shows "\<exists>h. Histogram_default = Some h \<and> length (buckets_m h) = 1551 \<and>
           first_greater (bucket_limits_m h) v = 1549 \<and>
           Add h v = Inl (BucketOutOfRange 1551 1551)"
proof -
  let ?T = "map uminus (rev (grown_buckets @ [dbl_max])) @ (grown_buckets @ [dbl_max]) @ [0]"
  have l: "length (buckets_m (Histogram_limits ?T)) = 1551"
    using default_limits_nth(1) by (simp add: Histogram_limits_def)
  have u: "upper_bound (bucket_limits_m (Histogram_limits ?T)) v = 1551"
    using default_upper_bound_large[OF assms(1)] by (simp add: Histogram_limits_def)
  have f: "first_greater (bucket_limits_m (Histogram_limits ?T)) v = 1549"
    using default_first_greater_large[OF assms] by (simp add: Histogram_limits_def)
  have "Add (Histogram_limits ?T) v = Inl (BucketOutOfRange 1551 1551)"
    using Add_Inl[of "Histogram_limits ?T" v] l u by simp
  then show ?thesis using l f by (simp add: Histogram_default_eq)
qed

text \<open>
  Below the last grown value the search is right in spite of the trailing \<open>0\<close>: the
  bucket index is the index of the first greater edge, at most \<open>1548\<close>. So on the default
  histogram \<^verbatim>\<open>Add\<close> goes out of range exactly for the values from
  \<open>10\<^sup>-\<^sup>1\<^sup>2 \<sqdot> 1.1\<^sup>7\<^sup>7\<^sup>3\<close> (about \<open>9.92 \<sqdot> 10\<^sup>1\<^sup>9\<close>) on.
\<close>

lemma default_upper_bound_small:
  assumes "v < 99207756218597834752"
  shows "upper_bound
           (map uminus (rev (grown_buckets @ [dbl_max])) @ (grown_buckets @ [dbl_max]) @ [0]) v
         = first_greater
           (map uminus (rev (grown_buckets @ [dbl_max])) @ (grown_buckets @ [dbl_max]) @ [0]) v"
    and "first_greater
           (map uminus (rev (grown_buckets @ [dbl_max])) @ (grown_buckets @ [dbl_max]) @ [0]) v
         \<le> 1548"
proof -
  let ?T = "map uminus (rev (grown_buckets @ [dbl_max])) @ (grown_buckets @ [dbl_max]) @ [0]"
  have l: "length ?T = 1551" by (rule default_limits_nth(1))
  have "v < ?T ! 1548" using assms by (simp only: default_limits_nth(7))
  then show w: "first_greater ?T v \<le> 1548"
    using l by (intro first_greater_le_index) simp_all
  show "upper_bound ?T v = first_greater ?T v"
  proof (rule upper_bound_sorted_but_last)
    show "sorted (butlast ?T)" by (rule default_limits_nth(8))
    show "first_greater ?T v + 3 \<le> length ?T" using w l by simp
  qed
qed

lemma default_Add_in_range_iff:
  "\<exists>h. Histogram_default = Some h \<and>
       (upper_bound (bucket_limits_m h) v < length (buckets_m h)
          \<longleftrightarrow> v < 99207756218597834752)"
proof (cases "v < 99207756218597834752")
  case True
  then show ?thesis
    using default_upper_bound_small[OF True] default_limits_nth(1)
    by (simp add: Histogram_default_eq Histogram_limits_def)
next
  case False
  then show ?thesis
    using default_upper_bound_large[of v] default_limits_nth(1)
    by (simp add: Histogram_default_eq Histogram_limits_def)
qed

text \<open>
  For values below that bound the counters of a default histogram are right.
\<close>

lemma default_counts_below_bound:
  assumes "\<forall>v \<in> set vs. v < 99207756218597834752"
  shows "\<exists>h0 h. Histogram_default = Some h0 \<and> AddAll h0 vs = Inr h \<and>
           num_m h = real (length vs) \<and> sum_list (buckets_m h) = num_m h \<and>
           sum_list (bucket (SerializeToProto h HistogramProto_new)) = num_m h \<and>
           length (buckets_m h) = length (bucket_limits_m h)"
proof -
  let ?T = "map uminus (rev (grown_buckets @ [dbl_max])) @ (grown_buckets @ [dbl_max]) @ [0]"
  have "upper_bound ?T v < length ?T" if "v \<in> set vs" for v
  proof -
    have v: "v < 99207756218597834752" using assms that by blast
    have "upper_bound ?T v \<le> 1548"
      using default_upper_bound_small[OF v] by (simp only:)
    then show ?thesis using default_limits_nth(1) by simp
  qed
  then have "\<forall>v \<in> set vs. upper_bound ?T v < length ?T" by blast
  then obtain h where "AddAll (Histogram_limits ?T) vs = Inr h"
      "num_m h = real (length vs)" "sum_list (buckets_m h) = num_m h"
      "sum_list (bucket (SerializeToProto h HistogramProto_new)) = num_m h"
      "length (buckets_m h) = length (bucket_limits_m h)"
    using Histogram_counts_in_range[of vs ?T] by blast
  then show ?thesis
    unfolding Histogram_default_eq by (intro exI[of _ "Histogram_limits ?T"] exI[of _ h]) simp
qed

lemma dbl_max_gt: "10 ^ 21 < dbl_max"
  by (simp add: dbl_max_def)

text \<open>
  Claim C9. On the default table, which has \<open>1551\<close> edges and as many counts, the
  search returns \<open>1551\<close> for the largest finite double and for \<open>10\<^sup>2\<^sup>1\<close>: the bucket
  index equals the length of the counts and is not below it.
\<close>

theorem default_upper_bound_reaches_size:
  "\<exists>h. Histogram_default = Some h \<and> length (buckets_m h) = 1551 \<and>
       upper_bound (bucket_limits_m h) dbl_max = 1551 \<and>
       upper_bound (bucket_limits_m h) (10 ^ 21) = 1551"
  using default_upper_bound_large[of dbl_max] default_upper_bound_large[of "10 ^ 21"]
    dbl_max_ge last_grown_lt default_limits_nth(1)
  by (simp add: Histogram_default_eq Histogram_limits_def)

text \<open>
  Claim C4. On a new default histogram a single \<^verbatim>\<open>Add\<close> of the largest finite double,
  or of \<open>10\<^sup>2\<^sup>1\<close>, increments \<^verbatim>\<open>buckets_[1551]\<close>, one past the last count: no bucket
  of the histogram receives the value, although for \<open>10\<^sup>2\<^sup>1\<close> the table has a greater
  edge, at index \<open>1549\<close>. What holds when every index is in range is lemma
  \<open>Histogram_counts_in_range\<close>.
\<close>

theorem default_Add_out_of_range:
  "\<exists>h. Histogram_default = Some h \<and>
       AddAll h [dbl_max] = Inl (BucketOutOfRange 1551 1551) \<and>
       AddAll h [10 ^ 21] = Inl (BucketOutOfRange 1551 1551) \<and>
       first_greater (bucket_limits_m h) (10 ^ 21) = 1549"
proof -
  let ?T = "map uminus (rev (grown_buckets @ [dbl_max])) @ (grown_buckets @ [dbl_max]) @ [0]"
  let ?h = "Histogram_limits ?T"
  have l: "length (buckets_m ?h) = 1551"
    using default_limits_nth(1) by (simp add: Histogram_limits_def)
  have u1: "upper_bound (bucket_limits_m ?h) dbl_max = 1551"
    using default_upper_bound_large[of dbl_max] dbl_max_ge last_grown_lt
    by (simp add: Histogram_limits_def)
  have u2: "upper_bound (bucket_limits_m ?h) (10 ^ 21) = 1551"
    using default_upper_bound_large[of "10 ^ 21"] last_grown_lt
    by (simp add: Histogram_limits_def)
  have f: "first_greater (bucket_limits_m ?h) (10 ^ 21) = 1549"
    using default_first_greater_large[of "10 ^ 21"] dbl_max_gt last_grown_lt
    by (simp add: Histogram_limits_def)
  have a1: "Add ?h dbl_max = Inl (BucketOutOfRange 1551 1551)"
    using Add_Inl[of ?h dbl_max] l u1 by simp
  have a2: "Add ?h (10 ^ 21) = Inl (BucketOutOfRange 1551 1551)"
    using Add_Inl[of ?h "10 ^ 21"] l u2 by simp
  show ?thesis
    unfolding Histogram_default_eq using a1 a2 f by simp
qed

text \<open>
  Claim C3. On a new default histogram \<^verbatim>\<open>Add(1e20)\<close> does not increment the count at
  the index of the first edge strictly greater than the value. That edge exists: it is
  the largest double, at index \<open>1549\<close>. The search returns \<open>1551\<close>, and the increment is
  that of \<^verbatim>\<open>buckets_[1551]\<close>, past the last count. With the sorted edges \<open>[0, 1, 2]\<close>,
  \<^verbatim>\<open>Add(2)\<close>, a value equal to the last edge, has no greater edge and increments
  \<^verbatim>\<open>buckets_[3]\<close>, past the last count as well. On sorted edges and below some edge
  the count at the index of the first greater edge is the one incremented (theorem
  \<open>Add_increments_first_greater_bucket\<close>).
\<close>

theorem default_Add_misses_first_greater_edge:
  "(\<exists>h. Histogram_default = Some h \<and> length (buckets_m h) = 1551 \<and>
        bucket_limits_m h ! 1549 = dbl_max \<and> 10 ^ 20 < dbl_max \<and>
        first_greater (bucket_limits_m h) (10 ^ 20) = 1549 \<and>
        upper_bound (bucket_limits_m h) (10 ^ 20) = 1551 \<and>
        Add h (10 ^ 20) = Inl (BucketOutOfRange 1551 1551)) \<and>
   first_greater [0, 1, 2] 2 = 3 \<and>
   Add (Histogram_limits [0, 1, 2]) 2 = Inl (BucketOutOfRange 3 3)"
proof -
  let ?T = "map uminus (rev (grown_buckets @ [dbl_max])) @ (grown_buckets @ [dbl_max]) @ [0]"
  let ?h = "Histogram_limits ?T"
  have ge: "(99207756218597834752::real) \<le> 10 ^ 20" by simp
  have lt: "(10::real) ^ 20 < dbl_max" by (simp add: dbl_max_def)
  have l: "length (buckets_m ?h) = 1551"
    using default_limits_nth(1) by (simp add: Histogram_limits_def)
  have e: "bucket_limits_m ?h ! 1549 = dbl_max"
    using default_limits_nth(4) by (simp add: Histogram_limits_def)
  have u: "upper_bound (bucket_limits_m ?h) (10 ^ 20) = 1551"
    using default_upper_bound_large[OF ge] by (simp add: Histogram_limits_def)
  have f: "first_greater (bucket_limits_m ?h) (10 ^ 20) = 1549"
    using default_first_greater_large[OF ge lt] by (simp add: Histogram_limits_def)
  have a: "Add ?h (10 ^ 20) = Inl (BucketOutOfRange 1551 1551)"
    using Add_Inl[of ?h "10 ^ 20"] l u by simp
  have u3: "upper_bound [0, 1, 2] (2::real) = 3" by (simp add: upper_bound_sorted)
  have a3: "Add (Histogram_limits [0, 1, 2]) 2 = Inl (BucketOutOfRange 3 3)"
    using Add_Inl[of "Histogram_limits [0, 1, 2]" 2] u3 by (simp add: Histogram_limits_def)
  have "\<exists>h. Histogram_default = Some h \<and> length (buckets_m h) = 1551 \<and>
        bucket_limits_m h ! 1549 = dbl_max \<and> 10 ^ 20 < dbl_max \<and>
        first_greater (bucket_limits_m h) (10 ^ 20) = 1549 \<and>
        upper_bound (bucket_limits_m h) (10 ^ 20) = 1551 \<and>
        Add h (10 ^ 20) = Inl (BucketOutOfRange 1551 1551)"
    unfolding Histogram_default_eq using l e lt f u a by simp
  then show ?thesis using a3 by simp
qed

text \<open>
  The export after one \<^verbatim>\<open>Add\<close> that lands in a bucket with neighbours on both sides:
  the zero run before it, the bucket, the zero run after it.
\<close>

lemma merge_from_zeros_then:
  "c \<noteq> 0 \<Longrightarrow> length es = m \<Longrightarrow>
   merge_from (0, e) (zip (replicate m 0) es @ (c, e') # rest)
     = (0, last (e # es)) # merge_from (c, e') rest"
proof (induction es arbitrary: e m)
  case Nil
  then show ?case by simp
next
  case (Cons x es)
  then obtain m' where m: "m = Suc m'" "length es = m'" by (cases m) auto
  show ?case using Cons.IH[OF Cons.prems(1) m(2), of x] m by simp
qed

lemma merged_pairs_one_count:
  fixes es :: "real list" and c :: real
  assumes "0 < i" "i + 1 < length es" "c \<noteq> 0"
  shows "merged_pairs (zip ((replicate (length es) 0)[i := c]) es)
           = [(0, es ! (i - 1)), (c, es ! i), (0, last es)]"
proof -
  let ?A = "take i es" and ?B = "drop (Suc i) es"
  have es: "es = ?A @ es ! i # ?B" using assms(2) by (intro id_take_nth_drop) simp
  have lA: "length ?A = i" using assms(2) by simp
  have lB: "length ?B = length es - Suc i" by simp
  obtain a A' where A: "?A = a # A'" using lA assms(1) by (cases ?A) auto
  obtain b B' where B: "?B = b # B'" using lB assms(2) by (cases ?B) auto
  have r: "(replicate (length es) (0::real))[i := c]
             = replicate i 0 @ c # replicate (length es - Suc i) 0"
    using assms(2) by (simp add: upd_conv_take_nth_drop min_def)
  have "zip ((replicate (length es) 0)[i := c]) es
          = zip (replicate i 0 @ c # replicate (length es - Suc i) 0) (?A @ es ! i # ?B)"
    using r es by simp
  also have "\<dots> = zip (replicate i 0) ?A @ (c, es ! i) # zip (replicate (length es - Suc i) 0) ?B"
    using lA by (simp del: take_all_iff)
  also have "\<dots> = (0, a) # (zip (replicate (length A') 0) A'
                        @ (c, es ! i) # (0, b) # zip (replicate (length B') 0) B')"
  proof -
    have "i = Suc (length A')" using lA A by (metis length_Cons)
    moreover have "length es - Suc i = Suc (length B')" using lB B by (metis length_Cons)
    ultimately show ?thesis using A B by simp
  qed
  finally have z: "zip ((replicate (length es) 0)[i := c]) es
          = (0, a) # (zip (replicate (length A') 0) A'
               @ (c, es ! i) # (0, b) # zip (replicate (length B') 0) B')" .
  have "merged_pairs (zip ((replicate (length es) 0)[i := c]) es)
          = (0, last (a # A')) # merge_from (c, es ! i) ((0, b) # zip (replicate (length B') 0) B')"
    unfolding z using merge_from_zeros_then[OF assms(3) refl, of a A'] by simp
  also have "merge_from (c, es ! i) ((0, b) # zip (replicate (length B') 0) B')
          = [(c, es ! i), (0, last (b # B'))]"
    using assms(3) merge_from_zero_run[OF refl, of b B'] by simp
  finally have m: "merged_pairs (zip ((replicate (length es) 0)[i := c]) es)
          = [(0, last ?A), (c, es ! i), (0, last ?B)]"
    using A B by simp
  have "?A \<noteq> []" using A by simp
  then have "last ?A = ?A ! (length ?A - 1)" by (rule last_conv_nth)
  also have "\<dots> = ?A ! (i - 1)" by (simp only: lA)
  also have "\<dots> = es ! (i - 1)" using assms(1) by (intro nth_take) simp
  finally have "last ?A = es ! (i - 1)" .
  moreover have "last ?B = last es" using assms(2) by simp
  ultimately show ?thesis using m by simp
qed

text \<open>
  Claim C1. The buckets are visited in the order of their indices, and on the default
  table that is not the ascending order of the edges: the table ends with the largest
  double, at index \<open>1549\<close>, followed by \<open>0\<close>, at index \<open>1550\<close>. After \<^verbatim>\<open>Add(1.0)\<close> on a
  new default histogram the export is three pairs with the edges
  \<open>0.917\<dots>, 1.0089\<dots>, 0\<close>: the third edge is below the first two. The merging
  rule itself holds (theorem \<open>SerializeToProto_merges_zero_runs\<close>).
\<close>

theorem default_export_edges_not_ascending:
  "\<exists>h0 h. Histogram_default = Some h0 \<and> \<not> sorted (bucket_limits_m h0) \<and>
       AddAll h0 [1] = Inr h \<and>
       pairs (SerializeToProto h HistogramProto_new)
         = [(0, dval (8261820991772936, -53)), (1, dval (4544001545475115, -52)), (0, 0)] \<and>
       \<not> sorted (bucket_limit (SerializeToProto h HistogramProto_new))"
proof -
  define T where
    "T = map uminus (rev (grown_buckets @ [dbl_max])) @ (grown_buckets @ [dbl_max]) @ [0]"
  define h0 where "h0 = Histogram_limits T"
  have l: "length T = 1551" unfolding T_def by (rule default_limits_nth(1))
  have t1549: "T ! 1549 = dbl_max" unfolding T_def by (rule default_limits_nth(4))
  have t1550: "T ! 1550 = 0" unfolding T_def by (rule default_limits_nth(5))
  have sbl: "sorted (butlast T)" unfolding T_def by (rule default_limits_nth(8))
  have "T ! 1064 = grown_buckets ! (1064 - 775)"
    unfolding T_def by (rule default_limits_nth(9)) simp_all
  then have t1064: "T ! 1064 = dval (8261820991772936, -53)"
    by (simp add: grown_buckets_nth(2))
  have "T ! 1065 = grown_buckets ! (1065 - 775)"
    unfolding T_def by (rule default_limits_nth(9)) simp_all
  then have t1065: "T ! 1065 = dval (4544001545475115, -52)"
    by (simp add: grown_buckets_nth(3))
  have lo: "dval (8261820991772936, -53) \<le> 1" by (simp add: dval_def)
  have hi: "1 < dval (4544001545475115, -52)" by (simp add: dval_def)
  have "T \<noteq> []" using l by auto
  then have "last T = T ! (length T - 1)" by (rule last_conv_nth)
  then have last: "last T = 0" using l t1550 by simp
  have unsorted: "\<not> sorted T"
  proof
    assume "sorted T"
    then have "T ! 1549 \<le> T ! 1550" using l by (intro sorted_nth_mono) simp_all
    then have "dbl_max \<le> 0" by (simp only: t1549 t1550)
    then show False by (simp add: dbl_max_def)
  qed
  have fg: "first_greater T 1 = 1065"
  proof (rule first_greater_unique)
    show "1065 \<le> length T" unfolding l by simp
    show "1 < T ! 1065" unfolding t1065 by (rule hi)
    show "T ! j \<le> 1" if "j < 1065" for j
    proof -
      have "butlast T ! j \<le> butlast T ! 1064"
        using that l sbl by (intro sorted_nth_mono) simp_all
      moreover have "butlast T ! j = T ! j" using that l by (intro nth_butlast) simp
      moreover have "butlast T ! 1064 = T ! 1064" using l by (intro nth_butlast) simp
      ultimately have "T ! j \<le> T ! 1064" by simp
      then show ?thesis using lo unfolding t1064 by simp
    qed
  qed
  have "(1::real) < 99207756218597834752" by simp
  then have "upper_bound T 1 = first_greater T 1"
    unfolding T_def by (rule default_upper_bound_small(1))
  then have ub: "upper_bound T 1 = 1065" using fg by simp
  define h where "h = h0\<lparr>min_m := (if 1 < min_m h0 then 1 else min_m h0),
            max_m := (if max_m h0 < 1 then 1 else max_m h0),
            num_m := num_m h0 + 1, sum_m := sum_m h0 + 1,
            sum_squares_m := sum_squares_m h0 + 1 * 1,
            buckets_m := (buckets_m h0)[upper_bound (bucket_limits_m h0) 1 :=
                buckets_m h0 ! upper_bound (bucket_limits_m h0) 1 + 1]\<rparr>"
  have bl: "bucket_limits_m h0 = T" "buckets_m h0 = replicate (length T) 0"
    by (simp_all add: h0_def Histogram_limits_def)
  have "upper_bound (bucket_limits_m h0) 1 < length (buckets_m h0)"
    unfolding bl using ub l by simp
  then have add: "Add h0 1 = Inr h" unfolding h_def by (rule Add_Inr)
  have hb: "buckets_m h = (replicate (length T) 0)[1065 := 1]"
    unfolding h_def using bl ub l by simp
  have hl: "bucket_limits_m h = T" unfolding h_def using bl by simp
  have len: "length (buckets_m h) = length (bucket_limits_m h)" unfolding hb hl by simp
  have e: "bucket HistogramProto_new = []" "bucket_limit HistogramProto_new = []"
    by (simp_all add: HistogramProto_new_def)
  note sp = SerializeToProto_pairs[OF len e]
  have "merged_pairs (zip ((replicate (length T) 0)[1065 := 1]) T)
              = [(0, T ! (1065 - 1)), (1, T ! 1065), (0, last T)]"
    using l by (intro merged_pairs_one_count) simp_all
  then have mp: "merged_pairs (zip (buckets_m h) (bucket_limits_m h))
              = [(0, dval (8261820991772936, -53)), (1, dval (4544001545475115, -52)), (0, 0)]"
    unfolding hb hl using t1064 t1065 last by simp
  have p: "pairs (SerializeToProto h HistogramProto_new)
             = [(0, dval (8261820991772936, -53)), (1, dval (4544001545475115, -52)), (0, 0)]"
    unfolding pairs_def sp mp by simp
  have "bucket_limit (SerializeToProto h HistogramProto_new)
          = [dval (8261820991772936, -53), dval (4544001545475115, -52), 0]"
    unfolding sp(2) mp by simp
  then have ns: "\<not> sorted (bucket_limit (SerializeToProto h HistogramProto_new))"
    using hi by simp
  have a: "AddAll h0 [1] = Inr h" using add by simp
  have d: "Histogram_default = Some h0"
    unfolding h0_def T_def by (rule Histogram_default_eq)
  have "\<not> sorted (bucket_limits_m h0)" unfolding bl by (rule unsorted)
  then show ?thesis using d a p ns by blast
qed

end
